theory Spec2Isabelle
  imports Main "HOL-Library.Word"
begin

unbundle bit_operations_syntax

section \<open>Support for self-modifying code on AArch64 (litmus/libdir/_aarch64/self.c)\<close>

text \<open>
  The file consists of two C functions whose bodies are one GNU extended \<open>asm\<close>
  statement each. The embedding keeps the statements as they are written (template
  string, operand lists, clobbers), turns the template into A64 instructions the way
  the assembler reads it (lines, mnemonics, \<open>%[name]\<close> operands, local numeric
  labels), and runs the instructions on a machine state with registers, memory and
  the caches the instructions act on.
\<close>

subsection \<open>The source: types and asm statements\<close>

text \<open>\<open>typedef uint32_t ins_t ;\<close>\<close>

type_synonym ins_t = "32 word"
type_synonym addr = "64 word"
type_synonym byte = "8 word"
type_synonym reg = "5 word"

record asm_operand =
  op_name :: string
  op_constraint :: string
  op_expr :: string

record asm_stmt =
  asm_volatile :: bool
  asm_template :: string
  asm_outputs :: "asm_operand list"
  asm_inputs :: "asm_operand list"
  asm_clobbers :: "string list"

definition NL :: string where
  "NL = [CHR 0x0A]"

definition NLT :: string where
  "NLT = [CHR 0x0A, CHR 0x09]"

text \<open>
  \<^verbatim>\<open>asm __volatile__
    ("dc cvau,%[p]\n\t" "dsb sy\n\t" "ic ivau,%[p]\n\t" "dsb sy\n\t" "isb"
     ::[p]"r"(p): "memory");\<close>
\<close>

definition selfbar_asm :: asm_stmt where
  "selfbar_asm =
     \<lparr> asm_volatile = True,
       asm_template =
         ''dc cvau,%[p]'' @ NLT @ ''dsb sy'' @ NLT @ ''ic ivau,%[p]'' @ NLT @
         ''dsb sy'' @ NLT @ ''isb'',
       asm_outputs = [],
       asm_inputs = [\<lparr> op_name = ''p'', op_constraint = ''r'', op_expr = ''p'' \<rparr>],
       asm_clobbers = [''memory''] \<rparr>"

text \<open>
  \<^verbatim>\<open>asm __volatile__ (
  "adr %[x1],0f\n\t"
  "ldr %w[x2],[%[x1]]\n\t"
  "b 1f\n"
  "0:\n\t"
  "ret\n"
  "1:\n"
:[x1] "=&r" (x1),[x2] "=&r" (r)
:
: "cc","memory"
);\<close>
\<close>

definition getret_asm :: asm_stmt where
  "getret_asm =
     \<lparr> asm_volatile = True,
       asm_template =
         ''adr %[x1],0f'' @ NLT @ ''ldr %w[x2],[%[x1]]'' @ NLT @ ''b 1f'' @ NL @
         ''0:'' @ NLT @ ''ret'' @ NL @ ''1:'' @ NL,
       asm_outputs =
         [\<lparr> op_name = ''x1'', op_constraint = ''=&r'', op_expr = ''x1'' \<rparr>,
          \<lparr> op_name = ''x2'', op_constraint = ''=&r'', op_expr = ''r'' \<rparr>],
       asm_inputs = [],
       asm_clobbers = [''cc'', ''memory''] \<rparr>"

subsection \<open>Reading a template: lines, labels, mnemonics, operands\<close>

text \<open>
  An operand of a template line is \<open>%[name]\<close> (the 64-bit view of the register
  chosen for the C operand) or \<open>%w[name]\<close> (its 32-bit view).
\<close>

datatype opnd = OpX string | OpW string

text \<open>
  One line of assembly: a local numeric label \<open>N:\<close> or one instruction. A branch
  target \<open>Nf\<close> is the next definition of label \<open>N\<close> after the instruction.
\<close>

datatype stmt =
    Label nat
  | Dc_cvau opnd
  | Ic_ivau opnd
  | Dsb_sy
  | Isb
  | Adr opnd nat
  | Ldr opnd opnd
  | Br nat
  | Ret

fun split_on :: "char \<Rightarrow> string \<Rightarrow> string list" where
  "split_on c [] = [[]]"
| "split_on c (x # xs) =
     (if x = c then [] # split_on c xs
      else (case split_on c xs of
              [] \<Rightarrow> [[x]]
            | l # ls \<Rightarrow> (x # l) # ls))"

definition is_blank :: "char \<Rightarrow> bool" where
  "is_blank c = (c = CHR '' '' \<or> c = CHR 0x09)"

definition trim :: "string \<Rightarrow> string" where
  "trim s = rev (dropWhile is_blank (rev (dropWhile is_blank s)))"

definition digit_of :: "char \<Rightarrow> nat option" where
  "digit_of c =
     (let n = (of_char c :: nat) in if 48 \<le> n \<and> n \<le> 57 then Some (n - 48) else None)"

definition parse_opnd :: "string \<Rightarrow> opnd option" where
  "parse_opnd s =
     (if 3 < length s \<and> take 2 s = ''%['' \<and> last s = CHR '']''
        then Some (OpX (butlast (drop 2 s)))
      else if 4 < length s \<and> take 3 s = ''%w['' \<and> last s = CHR '']''
        then Some (OpW (butlast (drop 3 s)))
      else None)"

definition parse_mem :: "string \<Rightarrow> opnd option" where
  "parse_mem s =
     (if 2 < length s \<and> hd s = CHR ''['' \<and> last s = CHR '']''
        then parse_opnd (butlast (tl s))
      else None)"

definition parse_fwd :: "string \<Rightarrow> nat option" where
  "parse_fwd s =
     (case s of
        [d, f] \<Rightarrow> (if f = CHR ''f'' then digit_of d else None)
      | _ \<Rightarrow> None)"

definition parse_insn :: "string \<Rightarrow> string list \<Rightarrow> stmt option" where
  "parse_insn m args =
     (if m = ''dc'' then
        (case args of
           [k, r] \<Rightarrow> (if k = ''cvau'' then map_option Dc_cvau (parse_opnd r) else None)
         | _ \<Rightarrow> None)
      else if m = ''ic'' then
        (case args of
           [k, r] \<Rightarrow> (if k = ''ivau'' then map_option Ic_ivau (parse_opnd r) else None)
         | _ \<Rightarrow> None)
      else if m = ''dsb'' then (if args = [''sy''] then Some Dsb_sy else None)
      else if m = ''isb'' then (if args = [] then Some Isb else None)
      else if m = ''adr'' then
        (case args of
           [r, t] \<Rightarrow>
             (case (parse_opnd r, parse_fwd t) of
                (Some d, Some n) \<Rightarrow> Some (Adr d n)
              | _ \<Rightarrow> None)
         | _ \<Rightarrow> None)
      else if m = ''ldr'' then
        (case args of
           [r, a] \<Rightarrow>
             (case (parse_opnd r, parse_mem a) of
                (Some d, Some b) \<Rightarrow> Some (Ldr d b)
              | _ \<Rightarrow> None)
         | _ \<Rightarrow> None)
      else if m = ''b'' then
        (case args of
           [t] \<Rightarrow> map_option Br (parse_fwd t)
         | _ \<Rightarrow> None)
      else if m = ''ret'' then (if args = [] then Some Ret else None)
      else None)"

text \<open>
  A line is blank (\<open>Some None\<close>), a label, an instruction, or not understood
  (\<open>None\<close>).
\<close>

definition parse_line :: "string \<Rightarrow> stmt option option" where
  "parse_line l =
     (let t = trim l in
      if t = [] then Some None
      else if last t = CHR '':'' then
        (case butlast t of
           [d] \<Rightarrow> (case digit_of d of None \<Rightarrow> None | Some n \<Rightarrow> Some (Some (Label n)))
         | _ \<Rightarrow> None)
      else
        (let m = takeWhile (\<lambda>c. \<not> is_blank c) t;
             rest = trim (dropWhile (\<lambda>c. \<not> is_blank c) t);
             args = (if rest = [] then [] else map trim (split_on (CHR '','') rest))
         in (case parse_insn m args of None \<Rightarrow> None | Some i \<Rightarrow> Some (Some i))))"

fun parse_lines :: "string list \<Rightarrow> stmt list option" where
  "parse_lines [] = Some []"
| "parse_lines (l # ls) =
     (case parse_line l of
        None \<Rightarrow> None
      | Some None \<Rightarrow> parse_lines ls
      | Some (Some st) \<Rightarrow> map_option (Cons st) (parse_lines ls))"

definition parse_asm :: "string \<Rightarrow> stmt list option" where
  "parse_asm t = parse_lines (split_on (CHR 0x0A) t)"

subsection \<open>A64 instructions, their encodings and the assembler\<close>

text \<open>
  The instructions the two templates use, with registers resolved. \<open>ADR\<close> and
  \<open>B\<close> carry a signed byte offset relative to the instruction's own address.
\<close>

datatype instr =
    DC_CVAU reg
  | IC_IVAU reg
  | DSB_SY
  | ISB
  | ADR reg int
  | LDR_W reg reg
  | B int
  | RET reg

text \<open>
  Byte distance from the start of a list of lines to the next definition of local
  label \<open>n\<close>: a label takes no space, an instruction four bytes.
\<close>

fun fwd_offset :: "nat \<Rightarrow> stmt list \<Rightarrow> nat option" where
  "fwd_offset n [] = None"
| "fwd_offset n (Label m # r) = (if m = n then Some 0 else fwd_offset n r)"
| "fwd_offset n (_ # r) = map_option (\<lambda>k. k + 4) (fwd_offset n r)"

text \<open>
  The assembler: \<open>ra\<close> is the compiler's choice of a register for each named C
  operand. Operand forms the source does not use are refused.
\<close>

fun assemble :: "(string \<Rightarrow> reg) \<Rightarrow> stmt list \<Rightarrow> instr list option" where
  "assemble ra [] = Some []"
| "assemble ra (Label n # r) = assemble ra r"
| "assemble ra (Dc_cvau (OpX x) # r) = map_option (Cons (DC_CVAU (ra x))) (assemble ra r)"
| "assemble ra (Ic_ivau (OpX x) # r) = map_option (Cons (IC_IVAU (ra x))) (assemble ra r)"
| "assemble ra (Dsb_sy # r) = map_option (Cons DSB_SY) (assemble ra r)"
| "assemble ra (Isb # r) = map_option (Cons ISB) (assemble ra r)"
| "assemble ra (Adr (OpX x) n # r) =
     (case fwd_offset n r of
        None \<Rightarrow> None
      | Some k \<Rightarrow> map_option (Cons (ADR (ra x) (int k + 4))) (assemble ra r))"
| "assemble ra (Ldr (OpW t) (OpX b) # r) =
     map_option (Cons (LDR_W (ra t) (ra b))) (assemble ra r)"
| "assemble ra (Br n # r) =
     (case fwd_offset n r of
        None \<Rightarrow> None
      | Some k \<Rightarrow> map_option (Cons (B (int k + 4))) (assemble ra r))"
| "assemble ra (Ret # r) = map_option (Cons (RET 30)) (assemble ra r)"
| "assemble ra (_ # r) = None"

definition compile_asm :: "asm_stmt \<Rightarrow> (string \<Rightarrow> reg) \<Rightarrow> instr list option" where
  "compile_asm a ra =
     (case parse_asm (asm_template a) of
        None \<Rightarrow> None
      | Some ls \<Rightarrow> assemble ra ls)"

text \<open>
  Byte offset, from the start of the block, of the definition of local label \<open>n\<close>
  and of the first \<open>ret\<close> line.
\<close>

definition label_offset :: "asm_stmt \<Rightarrow> nat \<Rightarrow> nat option" where
  "label_offset a n =
     (case parse_asm (asm_template a) of
        None \<Rightarrow> None
      | Some ls \<Rightarrow> fwd_offset n ls)"

fun ret_offset_in :: "stmt list \<Rightarrow> nat option" where
  "ret_offset_in [] = None"
| "ret_offset_in (Ret # r) = Some 0"
| "ret_offset_in (Label m # r) = ret_offset_in r"
| "ret_offset_in (_ # r) = map_option (\<lambda>k. k + 4) (ret_offset_in r)"

definition ret_offset :: "asm_stmt \<Rightarrow> nat option" where
  "ret_offset a =
     (case parse_asm (asm_template a) of
        None \<Rightarrow> None
      | Some ls \<Rightarrow> ret_offset_in ls)"

text \<open>
  Modelled from the spec: the encoding table of the toolchain's assembler and the
  decoder of the processor are not part of the repository. The specification names
  the architecture's documented encodings; for the eight instruction forms above the
  A64 ones (Arm Architecture Reference Manual, base and system instructions) are
  written out here. \<open>RET\<close> is \<open>1101011 0010 11111 000000 Rn 00000\<close>, and
  \<open>ret\<close> without operand names X30.
\<close>

definition encode :: "instr \<Rightarrow> ins_t" where
  "encode i =
     (case i of
        DC_CVAU r \<Rightarrow> 0xD50B7B20 OR ucast r
      | IC_IVAU r \<Rightarrow> 0xD50B7520 OR ucast r
      | DSB_SY \<Rightarrow> 0xD5033F9F
      | ISB \<Rightarrow> 0xD5033FDF
      | ADR r off \<Rightarrow>
          0x10000000 OR push_bit 29 (take_bit 2 (word_of_int off))
            OR push_bit 5 (take_bit 19 (drop_bit 2 (word_of_int off))) OR ucast r
      | LDR_W t n \<Rightarrow> 0xB9400000 OR push_bit 5 (ucast n) OR ucast t
      | B off \<Rightarrow> 0x14000000 OR take_bit 26 (word_of_int (off div 4))
      | RET n \<Rightarrow> 0xD65F0000 OR push_bit 5 (ucast n))"

text \<open>
  Modelled from the spec: the decoder of the processor, the inverse of the table above
  on the eight instruction forms; any other word is an undefined instruction.
\<close>

definition decode :: "ins_t \<Rightarrow> instr option" where
  "decode w =
     (if w AND 0xFFFFFC1F = 0xD65F0000 then Some (RET (ucast (drop_bit 5 w)))
      else if w AND 0xFFFFFFE0 = 0xD50B7B20 then Some (DC_CVAU (ucast w))
      else if w AND 0xFFFFFFE0 = 0xD50B7520 then Some (IC_IVAU (ucast w))
      else if w = 0xD5033F9F then Some DSB_SY
      else if w = 0xD5033FDF then Some ISB
      else if w AND 0x9F000000 = 0x10000000 then
        Some (ADR (ucast w)
               (signed_take_bit 20
                  (uint (push_bit 2 (take_bit 19 (drop_bit 5 w)) OR take_bit 2 (drop_bit 29 w)))))
      else if w AND 0xFFFFFC00 = 0xB9400000 then
        Some (LDR_W (ucast w) (ucast (drop_bit 5 w)))
      else if w AND 0xFC000000 = 0x14000000 then
        Some (B (4 * signed_take_bit 25 (uint (take_bit 26 w))))
      else None)"

subsection \<open>The machine: registers, memory, caches, pipeline\<close>

text \<open>
  Modelled from the spec: the processor is not part of the repository. Section 4.1 of
  the specification says what each primitive of the barrier does: the clean pushes
  the data cache line that contains the address out to the point of unification, the
  data synchronization barrier waits until the maintenance before it has completed,
  the invalidate discards the instruction cache line at the address, the instruction
  synchronization barrier discards what the pipeline has fetched. The machine below
  is one processing element with a write-back data cache, an instruction cache and a
  pipeline in front of memory; little-endian data accesses; evictions, fills,
  prefetches and the completion of pending maintenance happen on their own.
\<close>

text \<open>
  The smallest line sizes of the data and instruction caches, as \<open>CTR_EL0\<close>
  reports them: log2 of the number of 4-byte words per line.
\<close>

record cache_geom =
  dminline :: nat
  iminline :: nat

definition dline :: "cache_geom \<Rightarrow> addr \<Rightarrow> addr" where
  "dline g a = drop_bit (dminline g + 2) a"

definition iline :: "cache_geom \<Rightarrow> addr \<Rightarrow> addr" where
  "iline g a = drop_bit (iminline g + 2) a"

text \<open>A cache maintenance operation that was issued and has not completed yet.\<close>

datatype maint = Clean addr | Inval addr

text \<open>The primitive operations of the barrier, as they are issued, with their address.\<close>

datatype cache_op =
    CleanDCacheVAU addr
  | InvalICacheVAU addr
  | DataSyncBarrier
  | InstrSyncBarrier

text \<open>
  \<open>mem\<close> is memory at the point of unification, \<open>dcache\<close> the write-back data
  cache in front of it, \<open>icache\<close> the instruction cache, \<open>pipe\<close> instruction
  bytes already fetched into the pipeline. \<open>issued\<close> and \<open>trace\<close> log the
  barrier primitives issued and the addresses of the instructions executed.
\<close>

record machine =
  xreg :: "reg \<Rightarrow> 64 word"
  sp :: "64 word"
  pc :: addr
  mem :: "addr \<Rightarrow> byte"
  dcache :: "addr \<Rightarrow> byte option"
  icache :: "addr \<Rightarrow> byte option"
  pipe :: "addr \<Rightarrow> byte option"
  pending :: "maint list"
  issued :: "cache_op list"
  trace :: "addr list"

text \<open>What a load, the instruction cache and the fetch unit see at a byte address.\<close>

definition dview :: "machine \<Rightarrow> addr \<Rightarrow> byte" where
  "dview s a = (case dcache s a of Some v \<Rightarrow> v | None \<Rightarrow> mem s a)"

definition iview :: "machine \<Rightarrow> addr \<Rightarrow> byte" where
  "iview s a = (case icache s a of Some v \<Rightarrow> v | None \<Rightarrow> mem s a)"

definition fview :: "machine \<Rightarrow> addr \<Rightarrow> byte" where
  "fview s a = (case pipe s a of Some v \<Rightarrow> v | None \<Rightarrow> iview s a)"

definition le32 :: "byte \<Rightarrow> byte \<Rightarrow> byte \<Rightarrow> byte \<Rightarrow> 32 word" where
  "le32 b0 b1 b2 b3 =
     ucast b0 OR push_bit 8 (ucast b1) OR push_bit 16 (ucast b2) OR push_bit 24 (ucast b3)"

definition load32 :: "machine \<Rightarrow> addr \<Rightarrow> 32 word" where
  "load32 s a = le32 (dview s a) (dview s (a + 1)) (dview s (a + 2)) (dview s (a + 3))"

definition fetch32 :: "machine \<Rightarrow> addr \<Rightarrow> 32 word" where
  "fetch32 s a = le32 (fview s a) (fview s (a + 1)) (fview s (a + 2)) (fview s (a + 3))"

definition store8 :: "addr \<Rightarrow> byte \<Rightarrow> machine \<Rightarrow> machine" where
  "store8 a v s = s\<lparr>dcache := (dcache s)(a \<mapsto> v)\<rparr>"

definition store32 :: "addr \<Rightarrow> 32 word \<Rightarrow> machine \<Rightarrow> machine" where
  "store32 a w s =
     store8 (a + 3) (ucast (drop_bit 24 w))
       (store8 (a + 2) (ucast (drop_bit 16 w))
          (store8 (a + 1) (ucast (drop_bit 8 w)) (store8 a (ucast w) s)))"

text \<open>Register 31 reads as zero (XZR) or names the stack pointer, by instruction.\<close>

definition read_x :: "machine \<Rightarrow> reg \<Rightarrow> 64 word" where
  "read_x s r = (if r = 31 then 0 else xreg s r)"

definition read_xsp :: "machine \<Rightarrow> reg \<Rightarrow> 64 word" where
  "read_xsp s r = (if r = 31 then sp s else xreg s r)"

definition write_x :: "reg \<Rightarrow> 64 word \<Rightarrow> machine \<Rightarrow> machine" where
  "write_x r v s = (if r = 31 then s else s\<lparr>xreg := (xreg s)(r := v)\<rparr>)"

text \<open>
  Completion of a maintenance operation: a clean writes the line's cached data to
  memory, an invalidate empties the line of the instruction cache.
\<close>

fun apply_maint :: "cache_geom \<Rightarrow> maint \<Rightarrow> machine \<Rightarrow> machine" where
  "apply_maint g (Clean l) s =
     s\<lparr>mem := (\<lambda>b. if dline g b = l then dview s b else mem s b)\<rparr>"
| "apply_maint g (Inval l) s =
     s\<lparr>icache := (\<lambda>b. if iline g b = l then None else icache s b)\<rparr>"

text \<open>
  What the memory system may do on its own between two instructions: evict or fill a
  data cache line, fill or drop an instruction cache line, prefetch an instruction
  word into the pipeline, complete a pending maintenance operation (in any order).
\<close>

datatype env =
    Evict addr
  | DFill addr
  | IFill addr
  | IDrop addr
  | Prefetch addr
  | Complete nat

fun env_step :: "cache_geom \<Rightarrow> env \<Rightarrow> machine \<Rightarrow> machine" where
  "env_step g (Evict a) s =
     s\<lparr>mem := (\<lambda>b. if dline g b = dline g a then dview s b else mem s b),
       dcache := (\<lambda>b. if dline g b = dline g a then None else dcache s b)\<rparr>"
| "env_step g (DFill a) s =
     s\<lparr>dcache := (\<lambda>b. if dline g b = dline g a then Some (dview s b) else dcache s b)\<rparr>"
| "env_step g (IFill a) s =
     s\<lparr>icache := (\<lambda>b. if iline g b = iline g a then Some (iview s b) else icache s b)\<rparr>"
| "env_step g (IDrop a) s =
     s\<lparr>icache := (\<lambda>b. if iline g b = iline g a then None else icache s b)\<rparr>"
| "env_step g (Prefetch a) s =
     s\<lparr>pipe := (\<lambda>b. if b - a < 4 then Some (fview s b) else pipe s b)\<rparr>"
| "env_step g (Complete k) s =
     (if k < length (pending s)
      then (apply_maint g (pending s ! k) s)
             \<lparr>pending := take k (pending s) @ drop (Suc k) (pending s)\<rparr>
      else s)"

definition envs :: "cache_geom \<Rightarrow> env list \<Rightarrow> machine \<Rightarrow> machine" where
  "envs g es s = fold (env_step g) es s"

subsection \<open>Executing instructions\<close>

definition retire :: "addr \<Rightarrow> machine \<Rightarrow> machine" where
  "retire at s = s\<lparr>pc := at + 4, trace := trace s @ [at]\<rparr>"

definition branch :: "addr \<Rightarrow> addr \<Rightarrow> machine \<Rightarrow> machine" where
  "branch at target s = s\<lparr>pc := target, trace := trace s @ [at]\<rparr>"

fun exec :: "cache_geom \<Rightarrow> instr \<Rightarrow> machine \<Rightarrow> machine" where
  "exec g (DC_CVAU r) s =
     retire (pc s)
       (s\<lparr>pending := pending s @ [Clean (dline g (read_x s r))],
          issued := issued s @ [CleanDCacheVAU (read_x s r)]\<rparr>)"
| "exec g (IC_IVAU r) s =
     retire (pc s)
       (s\<lparr>pending := pending s @ [Inval (iline g (read_x s r))],
          issued := issued s @ [InvalICacheVAU (read_x s r)]\<rparr>)"
| "exec g DSB_SY s =
     retire (pc s)
       ((fold (apply_maint g) (pending s) s)
          \<lparr>pending := [], issued := issued s @ [DataSyncBarrier]\<rparr>)"
| "exec g ISB s =
     retire (pc s) (s\<lparr>pipe := (\<lambda>b. None), issued := issued s @ [InstrSyncBarrier]\<rparr>)"
| "exec g (ADR r off) s = retire (pc s) (write_x r (pc s + word_of_int off) s)"
| "exec g (LDR_W t n) s = retire (pc s) (write_x t (ucast (load32 s (read_xsp s n))) s)"
| "exec g (B off) s = branch (pc s) (pc s + word_of_int off) s"
| "exec g (RET n) s = branch (pc s) (read_x s n) s"

text \<open>
  A block of assembled instructions placed at \<open>base\<close>: the instruction at an
  address inside the block, and the address the block falls through to.
\<close>

definition instr_at :: "addr \<Rightarrow> instr list \<Rightarrow> addr \<Rightarrow> instr option" where
  "instr_at base prog a =
     (let d = unat (a - base)
      in if d mod 4 = 0 \<and> d div 4 < length prog then Some (prog ! (d div 4)) else None)"

definition block_end :: "addr \<Rightarrow> instr list \<Rightarrow> addr" where
  "block_end base prog = base + 4 * of_nat (length prog)"

definition next_env :: "env list list \<Rightarrow> env list" where
  "next_env sch = (case sch of [] \<Rightarrow> [] | es # _ \<Rightarrow> es)"

text \<open>
  Running a block until control leaves it at its end. Before each instruction the
  memory system takes the steps the schedule gives it. \<open>None\<close>: control reached an
  address of no instruction, or the step budget ran out.
\<close>

fun run :: "nat \<Rightarrow> cache_geom \<Rightarrow> instr list \<Rightarrow> addr \<Rightarrow> env list list \<Rightarrow> machine
            \<Rightarrow> machine option" where
  "run 0 g prog base sch s = (if pc s = block_end base prog then Some s else None)"
| "run (Suc n) g prog base sch s =
     (if pc s = block_end base prog then Some s
      else (case instr_at base prog (pc s) of
              None \<Rightarrow> None
            | Some i \<Rightarrow> run n g prog base (tl sch) (exec g i (envs g (next_env sch) s))))"

text \<open>
  Executing the instruction the fetch unit reads at the program counter (code that
  was written into a buffer at run time).
\<close>

definition fetch_step :: "cache_geom \<Rightarrow> machine \<Rightarrow> machine option" where
  "fetch_step g s =
     (if pc s AND 3 \<noteq> 0 then None
      else (case decode (fetch32 s (pc s)) of
              None \<Rightarrow> None
            | Some i \<Rightarrow> Some (exec g i s)))"

subsection \<open>The C functions\<close>

text \<open>
  The registers the compiler may choose for the operands of a statement: constraint
  \<open>r\<close> is a general register X0..X30, outputs are pairwise distinct, and an
  early-clobber output (\<open>&\<close>) is no input's register.
\<close>

definition alloc_ok :: "asm_stmt \<Rightarrow> (string \<Rightarrow> reg) \<Rightarrow> bool" where
  "alloc_ok a ra =
     (list_all (\<lambda>x. ra (op_name x) \<noteq> 31) (asm_outputs a @ asm_inputs a)
      \<and> distinct (map (\<lambda>x. ra (op_name x)) (asm_outputs a))
      \<and> list_all (\<lambda>x. CHR ''&'' \<notin> set (op_constraint x)
                     \<or> list_all (\<lambda>y. ra (op_name y) \<noteq> ra (op_name x)) (asm_inputs a))
           (asm_outputs a))"

text \<open>
  \<^verbatim>\<open>inline static void selfbar(void *p)\<close>: the argument is placed in the register of
  operand \<open>p\<close>, the block runs at the address \<open>base\<close> where the compiler put it.
\<close>

definition selfbar :: "cache_geom \<Rightarrow> (string \<Rightarrow> reg) \<Rightarrow> addr \<Rightarrow> env list list \<Rightarrow> nat
                       \<Rightarrow> addr \<Rightarrow> machine \<Rightarrow> machine option" where
  "selfbar g ra base sch fuel p s =
     (case compile_asm selfbar_asm ra of
        None \<Rightarrow> None
      | Some prog \<Rightarrow> run fuel g prog base sch (s\<lparr>xreg := (xreg s)(ra ''p'' := p), pc := base\<rparr>))"

text \<open>
  \<^verbatim>\<open>static ins_t getret(void)\<close>: after the block, \<open>r\<close> is read from the register of
  operand \<open>x2\<close> and returned.
\<close>

definition getret :: "cache_geom \<Rightarrow> (string \<Rightarrow> reg) \<Rightarrow> addr \<Rightarrow> env list list \<Rightarrow> nat
                      \<Rightarrow> machine \<Rightarrow> (ins_t \<times> machine) option" where
  "getret g ra base sch fuel s =
     (case compile_asm getret_asm ra of
        None \<Rightarrow> None
      | Some prog \<Rightarrow>
          (case run fuel g prog base sch (s\<lparr>pc := base\<rparr>) of
             None \<Rightarrow> None
           | Some s' \<Rightarrow> Some (ucast (xreg s' (ra ''x2'')), s')))"

text \<open>The words of a block are in memory, as loads see them, from address \<open>a\<close> on.\<close>

fun text_at :: "machine \<Rightarrow> addr \<Rightarrow> ins_t list \<Rightarrow> bool" where
  "text_at s a [] = True"
| "text_at s a (w # ws) = (load32 s a = w \<and> text_at s (a + 4) ws)"

text \<open>
  The text of \<open>getret\<close>'s block, as assembled for the register choice \<open>ra\<close>, is
  in memory at \<open>base\<close>; \<open>enc\<close> is the encoding table of the assembler that
  produced it.
\<close>

definition getret_loaded :: "(instr \<Rightarrow> ins_t) \<Rightarrow> (string \<Rightarrow> reg) \<Rightarrow> addr \<Rightarrow> machine
                             \<Rightarrow> bool" where
  "getret_loaded enc ra base s =
     (case compile_asm getret_asm ra of
        None \<Rightarrow> False
      | Some prog \<Rightarrow> text_at s base (map enc prog))"

subsection \<open>The caller's side\<close>

text \<open>
  Transferring control into a buffer with a branch-and-link: X30 receives the address
  of the instruction that follows the call.
\<close>

definition call_into :: "addr \<Rightarrow> addr \<Rightarrow> machine \<Rightarrow> machine" where
  "call_into target link s = s\<lparr>xreg := (xreg s)(30 := link), pc := target\<rparr>"

text \<open>
  The program loader: the words of a block are placed in memory from address \<open>a\<close>
  on.
\<close>

fun install :: "addr \<Rightarrow> ins_t list \<Rightarrow> machine \<Rightarrow> machine" where
  "install a [] s = s"
| "install a (w # ws) s = install (a + 4) ws (store32 a w s)"

subsection \<open>The layout of getret as the specification words it\<close>

text \<open>
  The specification describes the first label of the probe as placed immediately after
  the return instruction, the load reading one instruction before it. This predicate
  states that layout for a statement; it is compared with the layout of
  \<open>getret_asm\<close> below.
\<close>

definition spec_label_after_ret :: "asm_stmt \<Rightarrow> bool" where
  "spec_label_after_ret a =
     (case (label_offset a 0, ret_offset a) of
        (Some l, Some r) \<Rightarrow> l = r + 4
      | _ \<Rightarrow> False)"

subsection \<open>Notions used in the proofs\<close>

text \<open>
  A list of instructions executed one after the other, the memory system taking its
  scheduled steps before each.
\<close>

fun straight :: "cache_geom \<Rightarrow> instr list \<Rightarrow> env list list \<Rightarrow> machine \<Rightarrow> machine" where
  "straight g [] sch s = s"
| "straight g (i # is) sch s = straight g is (tl sch) (exec g i (envs g (next_env sch) s))"

text \<open>
  Degrees of coherence of a byte address: memory holds what a load sees
  (\<open>clean_at\<close>), the instruction cache agrees as well (\<open>icoh\<close>), and so does the
  pipeline (\<open>fcoh\<close>). \<open>cleaning\<close> and \<open>invalidating\<close> are the states in between,
  where the maintenance operation has been issued and may still be pending.
\<close>

definition clean_at :: "machine \<Rightarrow> addr \<Rightarrow> bool" where
  "clean_at s a = (mem s a = dview s a)"

definition icoh :: "machine \<Rightarrow> addr \<Rightarrow> bool" where
  "icoh s a = (mem s a = dview s a \<and> iview s a = dview s a)"

definition fcoh :: "machine \<Rightarrow> addr \<Rightarrow> bool" where
  "fcoh s a = (mem s a = dview s a \<and> iview s a = dview s a \<and> fview s a = dview s a)"

definition cleaning :: "cache_geom \<Rightarrow> maint list \<Rightarrow> machine \<Rightarrow> addr \<Rightarrow> bool" where
  "cleaning g ms s a = (clean_at s a \<or> Clean (dline g a) \<in> set ms)"

definition invalidating :: "cache_geom \<Rightarrow> maint list \<Rightarrow> machine \<Rightarrow> addr \<Rightarrow> bool" where
  "invalidating g ms s a =
     (clean_at s a \<and> (iview s a = dview s a \<or> Inval (iline g a) \<in> set ms))"

subsection \<open>A concrete machine\<close>

text \<open>
  Caches with 64-byte lines, the operands of both statements in X0, X1 and X2, a
  machine with everything zero and empty, and a schedule in which the memory system
  is busy around the buffer at \<open>0x3000\<close>.
\<close>

definition g0 :: cache_geom where
  "g0 = \<lparr> dminline = 4, iminline = 4 \<rparr>"

definition ra0 :: "string \<Rightarrow> reg" where
  "ra0 n = (if n = ''x1'' then 1 else if n = ''x2'' then 2 else 0)"

definition boot :: machine where
  "boot =
     \<lparr> xreg = (\<lambda>r. 0), sp = 0, pc = 0, mem = (\<lambda>a. 0), dcache = (\<lambda>a. None),
       icache = (\<lambda>a. None), pipe = (\<lambda>a. None), pending = [], issued = [], trace = [] \<rparr>"

definition sched0 :: "env list list" where
  "sched0 =
     [[IFill 0x3000, Prefetch 0x3000], [Complete 0, Evict 0x3000], [IFill 0x3000],
      [Complete 0, Prefetch 0x3000], [DFill 0x3000]]"

definition loaded0 :: machine where
  "loaded0 =
     install 0x1000 (map encode [ADR 1 12, LDR_W 2 1, B 8, RET 30]) boot"

section \<open>Facts about the model\<close>

subsection \<open>The two statements, assembled\<close>

lemma parse_selfbar:
  "parse_asm (asm_template selfbar_asm) =
     Some [Dc_cvau (OpX ''p''), Dsb_sy, Ic_ivau (OpX ''p''), Dsb_sy, Isb]"
  by code_simp

lemma parse_getret:
  "parse_asm (asm_template getret_asm) =
     Some [Adr (OpX ''x1'') 0, Ldr (OpW ''x2'') (OpX ''x1''), Br 1, Label 0, Ret, Label 1]"
  by code_simp

lemma compile_selfbar:
  "compile_asm selfbar_asm ra = Some [DC_CVAU (ra ''p''), DSB_SY, IC_IVAU (ra ''p''), DSB_SY, ISB]"
  by (simp add: compile_asm_def parse_selfbar)

lemma compile_getret:
  "compile_asm getret_asm ra = Some [ADR (ra ''x1'') 12, LDR_W (ra ''x2'') (ra ''x1''), B 8, RET 30]"
  by (simp add: compile_asm_def parse_getret)

lemma alloc_ok_selfbar: "alloc_ok selfbar_asm ra = (ra ''p'' \<noteq> 31)"
  by (simp add: alloc_ok_def selfbar_asm_def)

lemma alloc_ok_getret:
  "alloc_ok getret_asm ra = (ra ''x1'' \<noteq> 31 \<and> ra ''x2'' \<noteq> 31 \<and> ra ''x1'' \<noteq> ra ''x2'')"
  by (auto simp add: alloc_ok_def getret_asm_def)

subsection \<open>What the memory system leaves alone\<close>

lemma apply_maint_frame [simp]:
  "xreg (apply_maint g m s) = xreg s" "sp (apply_maint g m s) = sp s"
  "pc (apply_maint g m s) = pc s" "issued (apply_maint g m s) = issued s"
  "trace (apply_maint g m s) = trace s" "pending (apply_maint g m s) = pending s"
  "pipe (apply_maint g m s) = pipe s" "dcache (apply_maint g m s) = dcache s"
  by (cases m; simp)+

lemma dview_apply_maint [simp]: "dview (apply_maint g m s) a = dview s a"
  by (cases m) (auto simp add: dview_def split: option.splits)

lemma env_step_frame [simp]:
  "xreg (env_step g e s) = xreg s" "sp (env_step g e s) = sp s"
  "pc (env_step g e s) = pc s" "issued (env_step g e s) = issued s"
  "trace (env_step g e s) = trace s"
  by (cases e; simp)+

lemma dview_update [simp]:
  "dview (s\<lparr>pending := x\<rparr>) a = dview s a"
  "dview (s\<lparr>issued := y\<rparr>) a = dview s a"
  "dview (s\<lparr>trace := t\<rparr>) a = dview s a"
  "dview (s\<lparr>pc := c\<rparr>) a = dview s a"
  "dview (s\<lparr>xreg := f\<rparr>) a = dview s a"
  "dview (s\<lparr>pipe := q\<rparr>) a = dview s a"
  "dview (s\<lparr>icache := ic\<rparr>) a = dview s a"
  by (simp_all add: dview_def split: option.splits)

lemma dview_env_step [simp]: "dview (env_step g e s) a = dview s a"
proof (cases e)
  case (Complete k)
  then show ?thesis by simp
qed (auto simp add: dview_def split: option.splits)

lemma envs_frame [simp]:
  "xreg (envs g es s) = xreg s" "sp (envs g es s) = sp s"
  "pc (envs g es s) = pc s" "issued (envs g es s) = issued s"
  "trace (envs g es s) = trace s"
  unfolding envs_def by (induction es arbitrary: s; simp)+

lemma dview_envs [simp]: "dview (envs g es s) a = dview s a"
  unfolding envs_def by (induction es arbitrary: s) simp_all

lemma load32_envs [simp]: "load32 (envs g es s) a = load32 s a"
  by (simp add: load32_def)

lemma fold_maint_frame [simp]:
  "xreg (fold (apply_maint g) ms s) = xreg s" "sp (fold (apply_maint g) ms s) = sp s"
  "pc (fold (apply_maint g) ms s) = pc s" "issued (fold (apply_maint g) ms s) = issued s"
  "trace (fold (apply_maint g) ms s) = trace s"
  "pipe (fold (apply_maint g) ms s) = pipe s" "dcache (fold (apply_maint g) ms s) = dcache s"
  by (induction ms arbitrary: s; simp)+

lemma dview_fold_maint [simp]: "dview (fold (apply_maint g) ms s) a = dview s a"
  by (induction ms arbitrary: s) simp_all

lemma dview_exec [simp]: "dview (exec g i s) a = dview s a"
  by (cases i) (simp_all add: retire_def branch_def write_x_def)

subsection \<open>Running a block\<close>

lemma run_at_end: "pc s = block_end base prog \<Longrightarrow> run n g prog base sch s = Some s"
  by (cases n) simp_all

lemma instr_at_5:
  "instr_at base [i0, i1, i2, i3, i4] base = Some i0"
  "instr_at base [i0, i1, i2, i3, i4] (base + 4) = Some i1"
  "instr_at base [i0, i1, i2, i3, i4] (base + 8) = Some i2"
  "instr_at base [i0, i1, i2, i3, i4] (base + 12) = Some i3"
  "instr_at base [i0, i1, i2, i3, i4] (base + 16) = Some i4"
  by (simp_all add: instr_at_def)

lemma instr_at_5c:
  "instr_at base [i0, i1, i2, i3, i4] (4 + base) = Some i1"
  "instr_at base [i0, i1, i2, i3, i4] (8 + base) = Some i2"
  "instr_at base [i0, i1, i2, i3, i4] (12 + base) = Some i3"
  "instr_at base [i0, i1, i2, i3, i4] (16 + base) = Some i4"
  by (simp_all add: instr_at_def)

lemma instr_at_4c:
  "instr_at base [i0, i1, i2, i3] (4 + base) = Some i1"
  "instr_at base [i0, i1, i2, i3] (8 + base) = Some i2"
  "instr_at base [i0, i1, i2, i3] (12 + base) = Some i3"
  by (simp_all add: instr_at_def)

lemma instr_at_4:
  "instr_at base [i0, i1, i2, i3] base = Some i0"
  "instr_at base [i0, i1, i2, i3] (base + 4) = Some i1"
  "instr_at base [i0, i1, i2, i3] (base + 8) = Some i2"
  "instr_at base [i0, i1, i2, i3] (base + 12) = Some i3"
  by (simp_all add: instr_at_def)

lemma pc_exec [simp]:
  "pc (exec g (DC_CVAU r) s) = pc s + 4" "pc (exec g (IC_IVAU r) s) = pc s + 4"
  "pc (exec g DSB_SY s) = pc s + 4" "pc (exec g ISB s) = pc s + 4"
  "pc (exec g (ADR r off) s) = pc s + 4" "pc (exec g (LDR_W t n) s) = pc s + 4"
  "pc (exec g (B off) s) = pc s + word_of_int off"
  by (simp_all add: retire_def branch_def write_x_def)

subsection \<open>The memory system keeps coherence\<close>

lemma iview_update [simp]:
  "iview (s\<lparr>pending := x\<rparr>) a = iview s a"
  "iview (s\<lparr>issued := y\<rparr>) a = iview s a"
  "iview (s\<lparr>trace := t\<rparr>) a = iview s a"
  "iview (s\<lparr>pc := c\<rparr>) a = iview s a"
  "iview (s\<lparr>xreg := f\<rparr>) a = iview s a"
  "iview (s\<lparr>pipe := q\<rparr>) a = iview s a"
  "iview (s\<lparr>dcache := dc\<rparr>) a = iview s a"
  by (simp_all add: iview_def split: option.splits)

lemma fview_update [simp]:
  "fview (s\<lparr>pending := x\<rparr>) a = fview s a"
  "fview (s\<lparr>issued := y\<rparr>) a = fview s a"
  "fview (s\<lparr>trace := t\<rparr>) a = fview s a"
  "fview (s\<lparr>pc := c\<rparr>) a = fview s a"
  "fview (s\<lparr>xreg := f\<rparr>) a = fview s a"
  "fview (s\<lparr>dcache := dc\<rparr>) a = fview s a"
  by (simp_all add: fview_def split: option.splits)

lemma clean_at_apply_maint: "clean_at s a \<Longrightarrow> clean_at (apply_maint g m s) a"
  by (cases m) (auto simp add: clean_at_def dview_def split: option.splits)

lemma icoh_apply_maint: "icoh s a \<Longrightarrow> icoh (apply_maint g m s) a"
  by (cases m) (auto simp add: icoh_def dview_def iview_def split: option.splits)

lemma fcoh_apply_maint: "fcoh s a \<Longrightarrow> fcoh (apply_maint g m s) a"
  by (cases m) (auto simp add: fcoh_def dview_def iview_def fview_def split: option.splits)

lemma clean_at_pending [simp]: "clean_at (s\<lparr>pending := x\<rparr>) a = clean_at s a"
  by (simp add: clean_at_def)

lemma icoh_pending [simp]: "icoh (s\<lparr>pending := x\<rparr>) a = icoh s a"
  by (simp add: icoh_def)

lemma fcoh_pending [simp]: "fcoh (s\<lparr>pending := x\<rparr>) a = fcoh s a"
  by (simp add: fcoh_def)

lemma clean_at_env_step:
  assumes "clean_at s a"
  shows "clean_at (env_step g e s) a"
proof (cases e)
  case (Complete k)
  then show ?thesis
    using assms by (simp add: clean_at_apply_maint)
qed (use assms in \<open>auto simp add: clean_at_def dview_def split: option.splits\<close>)

lemma icoh_env_step:
  assumes "icoh s a"
  shows "icoh (env_step g e s) a"
proof (cases e)
  case (Complete k)
  then show ?thesis
    using assms by (simp add: icoh_apply_maint)
qed (use assms in \<open>auto simp add: icoh_def dview_def iview_def split: option.splits\<close>)

lemma fcoh_env_step:
  assumes "fcoh s a"
  shows "fcoh (env_step g e s) a"
proof (cases e)
  case (Complete k)
  then show ?thesis
    using assms by (simp add: fcoh_apply_maint)
qed (use assms in \<open>auto simp add: fcoh_def dview_def iview_def fview_def split: option.splits\<close>)

lemma clean_at_envs: "clean_at s a \<Longrightarrow> clean_at (envs g es s) a"
  unfolding envs_def by (induction es arbitrary: s) (simp_all add: clean_at_env_step)

lemma icoh_envs: "icoh s a \<Longrightarrow> icoh (envs g es s) a"
  unfolding envs_def by (induction es arbitrary: s) (simp_all add: icoh_env_step)

lemma fcoh_envs: "fcoh s a \<Longrightarrow> fcoh (envs g es s) a"
  unfolding envs_def by (induction es arbitrary: s) (simp_all add: fcoh_env_step)

lemma remaining_or_completed:
  assumes "x \<in> set l" and "k < length l"
  shows "x \<in> set (take k l @ drop (Suc k) l) \<or> x = l ! k"
proof -
  from assms(1) have "x \<in> set (take k l @ (l ! k) # drop (Suc k) l)"
    by (subst id_take_nth_drop [OF assms(2), symmetric])
  then show ?thesis by auto
qed

lemma clean_at_Clean: "clean_at (apply_maint g (Clean (dline g a)) s) a"
  by (simp add: clean_at_def dview_def split: option.splits)

lemma cleaning_env_step:
  assumes "cleaning g (pending s) s a"
  shows "cleaning g (pending (env_step g e s)) (env_step g e s) a"
proof (cases "\<exists>k. e = Complete k \<and> k < length (pending s)")
  case False
  then have "pending (env_step g e s) = pending s"
    by (cases e) simp_all
  with assms show ?thesis
    by (auto simp add: cleaning_def clean_at_env_step)
next
  case True
  then obtain k where e: "e = Complete k" and k: "k < length (pending s)"
    by blast
  let ?s' = "apply_maint g (pending s ! k) s"
  let ?rest = "take k (pending s) @ drop (Suc k) (pending s)"
  from assms consider "clean_at s a" | "Clean (dline g a) \<in> set (pending s)"
    by (auto simp add: cleaning_def)
  then have "clean_at ?s' a \<or> Clean (dline g a) \<in> set ?rest"
  proof cases
    case 1
    then show ?thesis by (simp add: clean_at_apply_maint)
  next
    case 2
    from remaining_or_completed [OF 2 k]
    show ?thesis
    proof
      assume "Clean (dline g a) \<in> set ?rest"
      then show ?thesis ..
    next
      assume "Clean (dline g a) = pending s ! k"
      then have "clean_at ?s' a"
        using clean_at_Clean [of g a s] by simp
      then show ?thesis ..
    qed
  qed
  with e k show ?thesis
    by (simp add: cleaning_def)
qed

lemma cleaning_envs:
  "cleaning g (pending s) s a \<Longrightarrow> cleaning g (pending (envs g es s)) (envs g es s) a"
  unfolding envs_def by (induction es arbitrary: s) (simp_all add: cleaning_env_step)

lemma cleaning_fold:
  "cleaning g ms s a \<Longrightarrow> clean_at (fold (apply_maint g) ms s) a"
proof (induction ms arbitrary: s)
  case Nil
  then show ?case by (simp add: cleaning_def)
next
  case (Cons m ms)
  have "cleaning g ms (apply_maint g m s) a"
  proof (cases "clean_at s a")
    case True
    then show ?thesis by (simp add: cleaning_def clean_at_apply_maint)
  next
    case False
    with Cons.prems have "m = Clean (dline g a) \<or> Clean (dline g a) \<in> set ms"
      by (auto simp add: cleaning_def)
    then show ?thesis
      using clean_at_Clean [of g a s] by (auto simp add: cleaning_def)
  qed
  then show ?case using Cons.IH by simp
qed

lemma iview_Inval: "clean_at s a \<Longrightarrow> iview (apply_maint g (Inval (iline g a)) s) a = dview s a"
  by (simp add: iview_def clean_at_def)

lemma invalidating_apply_maint:
  assumes "invalidating g ms s a"
  shows "invalidating g ms (apply_maint g m s) a"
proof -
  from assms have c: "clean_at s a" by (simp add: invalidating_def)
  show ?thesis
  proof (cases "iview s a = dview s a")
    case True
    with c have "icoh (apply_maint g m s) a"
      by (intro icoh_apply_maint) (simp add: icoh_def clean_at_def)
    then show ?thesis by (simp add: invalidating_def icoh_def clean_at_def)
  next
    case False
    with assms have "Inval (iline g a) \<in> set ms" by (simp add: invalidating_def)
    with c show ?thesis by (simp add: invalidating_def clean_at_apply_maint)
  qed
qed

lemma invalidating_env_step:
  assumes "invalidating g (pending s) s a"
  shows "invalidating g (pending (env_step g e s)) (env_step g e s) a"
proof -
  from assms have c: "clean_at s a" by (simp add: invalidating_def)
  show ?thesis
  proof (cases "iview s a = dview s a")
    case True
    with c have "icoh (env_step g e s) a"
      by (intro icoh_env_step) (simp add: icoh_def clean_at_def)
    then show ?thesis by (simp add: invalidating_def icoh_def clean_at_def)
  next
    case stale: False
    with assms have p: "Inval (iline g a) \<in> set (pending s)" by (simp add: invalidating_def)
    show ?thesis
    proof (cases "\<exists>k. e = Complete k \<and> k < length (pending s)")
      case False
      then have "pending (env_step g e s) = pending s"
        by (cases e) simp_all
      with p c show ?thesis
        by (simp add: invalidating_def clean_at_env_step)
    next
      case True
      then obtain k where e: "e = Complete k" and k: "k < length (pending s)"
        by blast
      let ?s' = "apply_maint g (pending s ! k) s"
      let ?rest = "take k (pending s) @ drop (Suc k) (pending s)"
      have c': "clean_at ?s' a" using c by (rule clean_at_apply_maint)
      from remaining_or_completed [OF p k]
      have "iview ?s' a = dview ?s' a \<or> Inval (iline g a) \<in> set ?rest"
      proof
        assume "Inval (iline g a) \<in> set ?rest"
        then show ?thesis ..
      next
        assume "Inval (iline g a) = pending s ! k"
        then have "iview ?s' a = dview ?s' a"
          using iview_Inval [OF c, of g] by simp
        then show ?thesis ..
      qed
      with e k c' show ?thesis
        by (simp add: invalidating_def)
    qed
  qed
qed

lemma invalidating_envs:
  "invalidating g (pending s) s a \<Longrightarrow> invalidating g (pending (envs g es s)) (envs g es s) a"
  unfolding envs_def by (induction es arbitrary: s) (simp_all add: invalidating_env_step)

lemma invalidating_fold:
  "invalidating g ms s a \<Longrightarrow> icoh (fold (apply_maint g) ms s) a"
proof (induction ms arbitrary: s)
  case Nil
  then show ?case by (simp add: invalidating_def icoh_def clean_at_def)
next
  case (Cons m ms)
  from Cons.prems have c: "clean_at s a" by (simp add: invalidating_def)
  have "invalidating g ms (apply_maint g m s) a"
  proof (cases "m = Inval (iline g a)")
    case True
    have "clean_at (apply_maint g m s) a"
      using c by (rule clean_at_apply_maint)
    moreover have "iview (apply_maint g m s) a = dview (apply_maint g m s) a"
      unfolding True using iview_Inval [OF c, of g] by (simp del: apply_maint.simps)
    ultimately show ?thesis
      unfolding invalidating_def by blast
  next
    case False
    with Cons.prems have "invalidating g ms s a"
      by (auto simp add: invalidating_def)
    then show ?thesis by (rule invalidating_apply_maint)
  qed
  then show ?case using Cons.IH by simp
qed

subsection \<open>Stages of the barrier\<close>

lemma read_x_envs [simp]: "read_x (envs g es s) r = read_x s r"
  by (simp add: read_x_def)

lemma stage_dc:
  assumes "dline g a = dline g (read_x s r)"
  shows "cleaning g (pending (exec g (DC_CVAU r) s)) (exec g (DC_CVAU r) s) a"
  using assms by (simp add: cleaning_def retire_def)

lemma stage_dsb_clean:
  assumes "cleaning g (pending s) s a"
  shows "clean_at (exec g DSB_SY s) a"
proof -
  have "clean_at (fold (apply_maint g) (pending s) s) a"
    using assms by (rule cleaning_fold)
  then show ?thesis by (simp add: clean_at_def retire_def)
qed

lemma stage_ic:
  assumes "clean_at s a" and "iline g a = iline g (read_x s r)"
  shows "invalidating g (pending (exec g (IC_IVAU r) s)) (exec g (IC_IVAU r) s) a"
  using assms by (simp add: invalidating_def clean_at_def retire_def)

lemma stage_dsb_inval:
  assumes "invalidating g (pending s) s a"
  shows "icoh (exec g DSB_SY s) a"
proof -
  have "icoh (fold (apply_maint g) (pending s) s) a"
    using assms by (rule invalidating_fold)
  then show ?thesis by (simp add: icoh_def retire_def)
qed

lemma stage_isb:
  assumes "icoh s a"
  shows "fcoh (exec g ISB s) a"
  using assms by (simp add: icoh_def fcoh_def retire_def fview_def)

lemma selfbar_run:
  "selfbar g ra base sch (5 + k) p s =
     Some (straight g [DC_CVAU (ra ''p''), DSB_SY, IC_IVAU (ra ''p''), DSB_SY, ISB] sch
             (s\<lparr>xreg := (xreg s)(ra ''p'' := p), pc := base\<rparr>))"
proof -
  have k: "5 + k = Suc (Suc (Suc (Suc (Suc k))))" by simp
  show ?thesis
    unfolding k
    by (simp add: selfbar_def compile_selfbar instr_at_5 instr_at_5c block_end_def run_at_end
        del: exec.simps)
qed

lemma exec_maint_frame [simp]:
  "xreg (exec g (DC_CVAU r) s) = xreg s" "xreg (exec g (IC_IVAU r) s) = xreg s"
  "xreg (exec g DSB_SY s) = xreg s" "xreg (exec g ISB s) = xreg s"
  "sp (exec g (DC_CVAU r) s) = sp s" "sp (exec g (IC_IVAU r) s) = sp s"
  "sp (exec g DSB_SY s) = sp s" "sp (exec g ISB s) = sp s"
  by (simp_all add: retire_def)

lemma exec_issued [simp]:
  "issued (exec g (DC_CVAU r) s) = issued s @ [CleanDCacheVAU (read_x s r)]"
  "issued (exec g (IC_IVAU r) s) = issued s @ [InvalICacheVAU (read_x s r)]"
  "issued (exec g DSB_SY s) = issued s @ [DataSyncBarrier]"
  "issued (exec g ISB s) = issued s @ [InstrSyncBarrier]"
  "issued (exec g (ADR r off) s) = issued s"
  "issued (exec g (LDR_W t n) s) = issued s"
  "issued (exec g (B off) s) = issued s"
  "issued (exec g (RET n) s) = issued s"
  by (simp_all add: retire_def branch_def write_x_def)

lemma exec_trace [simp]: "trace (exec g i s) = trace s @ [pc s]"
  by (cases i) (simp_all add: retire_def branch_def write_x_def)

lemma read_x_exec_maint [simp]:
  "read_x (exec g (DC_CVAU r) s) x = read_x s x" "read_x (exec g (IC_IVAU r) s) x = read_x s x"
  "read_x (exec g DSB_SY s) x = read_x s x" "read_x (exec g ISB s) x = read_x s x"
  by (simp_all add: read_x_def del: exec.simps)

lemma selfbar_steps_issued:
  "issued (straight g [DC_CVAU r, DSB_SY, IC_IVAU r, DSB_SY, ISB] sch s) =
     issued s @ [CleanDCacheVAU (read_x s r), DataSyncBarrier, InvalICacheVAU (read_x s r),
                 DataSyncBarrier, InstrSyncBarrier]"
  by (simp del: exec.simps)

lemma selfbar_steps_trace:
  "trace (straight g [DC_CVAU r, DSB_SY, IC_IVAU r, DSB_SY, ISB] sch s) =
     trace s @ [pc s, pc s + 4, pc s + 8, pc s + 12, pc s + 16]"
  by (simp del: exec.simps)

lemma selfbar_steps_frame:
  "xreg (straight g [DC_CVAU r, DSB_SY, IC_IVAU r, DSB_SY, ISB] sch s) = xreg s"
  "sp (straight g [DC_CVAU r, DSB_SY, IC_IVAU r, DSB_SY, ISB] sch s) = sp s"
  "pc (straight g [DC_CVAU r, DSB_SY, IC_IVAU r, DSB_SY, ISB] sch s) = pc s + 20"
  "dview (straight g [DC_CVAU r, DSB_SY, IC_IVAU r, DSB_SY, ISB] sch s) a = dview s a"
  by (simp_all del: exec.simps)

lemma selfbar_steps_fcoh:
  assumes d: "dline g a = dline g (read_x s r)" and i: "iline g a = iline g (read_x s r)"
  shows "fcoh (straight g [DC_CVAU r, DSB_SY, IC_IVAU r, DSB_SY, ISB] sch s) a"
proof -
  let ?e0 = "next_env sch"
  let ?e1 = "next_env (tl sch)"
  let ?e2 = "next_env (tl (tl sch))"
  let ?e3 = "next_env (tl (tl (tl sch)))"
  let ?e4 = "next_env (tl (tl (tl (tl sch))))"
  define s1 where "s1 = exec g (DC_CVAU r) (envs g ?e0 s)"
  define s2 where "s2 = exec g DSB_SY (envs g ?e1 s1)"
  define s3 where "s3 = exec g (IC_IVAU r) (envs g ?e2 s2)"
  define s4 where "s4 = exec g DSB_SY (envs g ?e3 s3)"
  define s5 where "s5 = exec g ISB (envs g ?e4 s4)"
  have "cleaning g (pending s1) s1 a"
    unfolding s1_def using d by (intro stage_dc) simp
  then have "cleaning g (pending (envs g ?e1 s1)) (envs g ?e1 s1) a"
    by (rule cleaning_envs)
  then have "clean_at s2 a"
    unfolding s2_def by (rule stage_dsb_clean)
  then have c2: "clean_at (envs g ?e2 s2) a"
    by (rule clean_at_envs)
  have "read_x (envs g ?e2 s2) r = read_x s r"
    by (simp add: s2_def s1_def del: exec.simps)
  with i have "iline g a = iline g (read_x (envs g ?e2 s2) r)"
    by simp
  with c2 have "invalidating g (pending s3) s3 a"
    unfolding s3_def by (rule stage_ic)
  then have "invalidating g (pending (envs g ?e3 s3)) (envs g ?e3 s3) a"
    by (rule invalidating_envs)
  then have "icoh s4 a"
    unfolding s4_def by (rule stage_dsb_inval)
  then have "icoh (envs g ?e4 s4) a"
    by (rule icoh_envs)
  then have "fcoh s5 a"
    unfolding s5_def by (rule stage_isb)
  then show ?thesis
    by (simp add: s5_def s4_def s3_def s2_def s1_def del: exec.simps)
qed

declare straight.simps [simp del]

subsection \<open>Words and bytes\<close>

lemma le32_split: "le32 (ucast w) (ucast (drop_bit 8 w)) (ucast (drop_bit 16 w)) (ucast (drop_bit 24 w)) = w"
proof (rule bit_word_eqI)
  fix n
  assume n: "n < LENGTH(32)"
  consider "n < 8" | "8 \<le> n" "n < 16" | "16 \<le> n" "n < 24" | "24 \<le> n"
    by linarith
  then show "bit (le32 (ucast w) (ucast (drop_bit 8 w)) (ucast (drop_bit 16 w))
                   (ucast (drop_bit 24 w))) n = bit w n"
  proof cases
    case 1
    then show ?thesis by (auto simp add: le32_def bit_simps)
  next
    case 2
    then show ?thesis by (auto simp add: le32_def bit_simps)
  next
    case 3
    then show ?thesis by (auto simp add: le32_def bit_simps)
  next
    case 4
    with n show ?thesis by (auto simp add: le32_def bit_simps)
  qed
qed

lemma getret_run:
  "getret g ra base sch (3 + k) s =
     (let s' = straight g [ADR (ra ''x1'') 12, LDR_W (ra ''x2'') (ra ''x1''), B 8] sch (s\<lparr>pc := base\<rparr>)
      in Some (ucast (xreg s' (ra ''x2'')), s'))"
proof -
  have k: "3 + k = Suc (Suc (Suc k))" by simp
  show ?thesis
    unfolding k
    by (simp add: getret_def compile_getret instr_at_4 instr_at_4c block_end_def run_at_end Let_def
        straight.simps del: exec.simps)
qed

lemma decode_ret: "decode 0xD65F03C0 = Some (RET 30)"
  by (simp add: decode_def)

lemma encode_ret: "encode (RET 30) = 0xD65F03C0"
  by (simp add: encode_def)

lemma load32_exec [simp]: "load32 (exec g i s) a = load32 s a"
  by (simp add: load32_def del: exec.simps)

lemma exec_probe_frame [simp]:
  "sp (exec g (ADR r off) s) = sp s" "sp (exec g (LDR_W t n) s) = sp s"
  "sp (exec g (B off) s) = sp s" "sp (exec g (RET n) s) = sp s"
  "xreg (exec g (B off) s) = xreg s" "xreg (exec g (RET n) s) = xreg s"
  "pc (exec g (RET n) s) = read_x s n"
  by (simp_all add: retire_def branch_def write_x_def)

lemma xreg_exec_adr:
  "r \<noteq> 31 \<Longrightarrow> xreg (exec g (ADR r off) s) = (xreg s)(r := pc s + word_of_int off)"
  by (simp add: retire_def write_x_def)

lemma xreg_exec_ldr:
  "t \<noteq> 31 \<Longrightarrow> n \<noteq> 31 \<Longrightarrow>
   xreg (exec g (LDR_W t n) s) = (xreg s)(t := ucast (load32 s (xreg s n)))"
  by (simp add: retire_def write_x_def read_xsp_def)

lemma getret_steps:
  assumes "x1 \<noteq> 31" and "x2 \<noteq> 31"
  shows "xreg (straight g [ADR x1 12, LDR_W x2 x1, B 8] sch s) =
           (xreg s)(x1 := pc s + 12, x2 := ucast (load32 s (pc s + 12)))"
    and "pc (straight g [ADR x1 12, LDR_W x2 x1, B 8] sch s) = pc s + 16"
    and "trace (straight g [ADR x1 12, LDR_W x2 x1, B 8] sch s) =
           trace s @ [pc s, pc s + 4, pc s + 8]"
    and "issued (straight g [ADR x1 12, LDR_W x2 x1, B 8] sch s) = issued s"
    and "sp (straight g [ADR x1 12, LDR_W x2 x1, B 8] sch s) = sp s"
    and "dview (straight g [ADR x1 12, LDR_W x2 x1, B 8] sch s) a = dview s a"
  using assms by (simp_all add: straight.simps xreg_exec_adr xreg_exec_ldr del: exec.simps)

lemma ucast_ucast_32_64: "(ucast (ucast (w :: 32 word) :: 64 word) :: 32 word) = w"
  by (rule bit_word_eqI) (auto simp add: bit_simps)

lemma dview_store8: "dview (store8 a v s) b = (if b = a then v else dview s b)"
  by (simp add: dview_def store8_def split: option.splits)

lemma load32_store32: "load32 (store32 p w s) p = w"
  by (simp add: load32_def store32_def dview_store8 le32_split)

lemma getret_loaded_iff:
  "getret_loaded enc ra base s =
     (load32 s base = enc (ADR (ra ''x1'') 12) \<and>
      load32 s (base + 4) = enc (LDR_W (ra ''x2'') (ra ''x1'')) \<and>
      load32 s (base + 8) = enc (B 8) \<and>
      load32 s (base + 12) = enc (RET 30))"
  by (simp add: getret_loaded_def compile_getret add.commute)

declare exec.simps [simp del]

lemma fuel5: "5 \<le> (fuel::nat) \<Longrightarrow> \<exists>k. fuel = 5 + k"
  by presburger

lemma fuel3: "3 \<le> (fuel::nat) \<Longrightarrow> \<exists>k. fuel = 3 + k"
  by presburger

subsection \<open>Instruction words and cache lines\<close>

lemma aligned_unat:
  fixes p :: "64 word"
  assumes "p AND 3 = 0"
  shows "unat p mod 4 = 0"
proof -
  have "take_bit 2 p = 0"
    using assms by (simp add: take_bit_eq_mask mask_eq_exp_minus_1)
  then have "take_bit 2 (unat p) = 0"
    by (metis unsigned_take_bit_eq unsigned_0)
  then show ?thesis by (simp add: take_bit_eq_mod)
qed

lemma same_line_nat:
  fixes x :: nat
  assumes "x mod 4 = 0" and "k < 4"
  shows "(x + k) div 2 ^ (n + 2) = x div 2 ^ (n + 2)"
proof -
  from assms(1) obtain q where x: "x = 4 * q"
    by (auto simp add: mod_eq_0_iff_dvd elim: dvdE)
  have "(x + k) div 2 ^ (n + 2) = ((x + k) div 4) div 2 ^ n"
    by (simp add: div_mult2_eq mult.commute)
  also have "(x + k) div 4 = q" using x assms(2) by simp
  also have "q div 2 ^ n = x div 2 ^ (n + 2)"
    using x by (simp add: div_mult2_eq mult.commute)
  finally show ?thesis .
qed

lemma word_in_line:
  fixes p k :: "64 word"
  assumes "p AND 3 = 0" and "k < 4"
  shows "drop_bit (n + 2) (p + k) = drop_bit (n + 2) p"
proof -
  have a: "unat p mod 4 = 0" using assms(1) by (rule aligned_unat)
  have k: "unat k < 4" using assms(2) by (simp add: word_less_nat_alt)
  have "unat p < 18446744073709551616" using unsigned_less [of p] by simp
  with a have "unat p + 4 \<le> 18446744073709551616" by presburger
  with k have "unat p + unat k < 2 ^ LENGTH(64)" by simp
  then have u: "unat (p + k) = unat p + unat k"
    by (rule unat_add_lem [THEN iffD1])
  have "unat (drop_bit (n + 2) (p + k)) = drop_bit (n + 2) (unat (p + k))"
    by (rule unat_drop_bit_eq)
  also have "\<dots> = (unat p + unat k) div 2 ^ (n + 2)"
    by (simp only: u drop_bit_eq_div)
  also have "\<dots> = unat p div 2 ^ (n + 2)"
    by (rule same_line_nat [OF a k])
  also have "\<dots> = drop_bit (n + 2) (unat p)"
    by (simp only: drop_bit_eq_div)
  also have "\<dots> = unat (drop_bit (n + 2) p)"
    by (rule unat_drop_bit_eq [symmetric])
  finally show ?thesis by (simp only: word_unat_eq_iff)
qed

lemma fetch32_coherent:
  assumes "fcoh s a" "fcoh s (a + 1)" "fcoh s (a + 2)" "fcoh s (a + 3)"
  shows "fetch32 s a = load32 s a"
  using assms by (simp add: fetch32_def load32_def fcoh_def)

lemma lines_of_word:
  assumes "q AND 3 = 0" and "k < 4"
  shows "dline g (q + k) = dline g q" and "iline g (q + k) = iline g q"
  unfolding dline_def iline_def using assms by (rule word_in_line)+

lemma selfbar_line_fcoh:
  assumes r: "r \<noteq> 31" and q: "q AND 3 = 0" and k: "k < 4"
    and d: "dline g q = dline g (xreg s r)" and i: "iline g q = iline g (xreg s r)"
  shows "fcoh (straight g [DC_CVAU r, DSB_SY, IC_IVAU r, DSB_SY, ISB] sch s) (q + k)"
proof -
  have rx: "read_x s r = xreg s r" using r by (simp add: read_x_def)
  have "dline g (q + k) = dline g (read_x s r)" "iline g (q + k) = iline g (read_x s r)"
    using lines_of_word [OF q k, of g] d i rx by simp_all
  then show ?thesis by (rule selfbar_steps_fcoh)
qed

lemma fetch32_word_coherent:
  assumes "\<And>k. k < 4 \<Longrightarrow> fcoh s (q + k)"
  shows "fetch32 s q = load32 s q"
  using assms [of 0] assms [of 1] assms [of 2] assms [of 3]
  by (intro fetch32_coherent) simp_all

lemma selfbar_line_fetch:
  assumes r: "r \<noteq> 31" and q: "q AND 3 = 0"
    and d: "dline g q = dline g (xreg s r)" and i: "iline g q = iline g (xreg s r)"
  shows "fetch32 (envs g es (straight g [DC_CVAU r, DSB_SY, IC_IVAU r, DSB_SY, ISB] sch s)) q
           = load32 s q"
proof -
  let ?s' = "straight g [DC_CVAU r, DSB_SY, IC_IVAU r, DSB_SY, ISB] sch s"
  have "fcoh (envs g es ?s') (q + k)" if "k < 4" for k
    using selfbar_line_fcoh [OF r q that d i] by (rule fcoh_envs)
  then have "fetch32 (envs g es ?s') q = load32 (envs g es ?s') q"
    by (rule fetch32_word_coherent)
  also have "\<dots> = load32 s q"
    by (simp add: load32_def selfbar_steps_frame)
  finally show ?thesis .
qed

lemma load32_update [simp]:
  "load32 (s\<lparr>xreg := f\<rparr>) a = load32 s a"
  "load32 (s\<lparr>pc := c\<rparr>) a = load32 s a"
  by (simp_all add: load32_def)

lemma fcoh_update [simp]:
  "fcoh (s\<lparr>xreg := f\<rparr>) a = fcoh s a"
  "fcoh (s\<lparr>pc := c\<rparr>) a = fcoh s a"
  by (simp_all add: fcoh_def)

lemma call_into_frame [simp]:
  "pc (call_into target link s) = target"
  "xreg (call_into target link s) = (xreg s)(30 := link)"
  "sp (call_into target link s) = sp s"
  "dview (call_into target link s) a = dview s a"
  "load32 (call_into target link s) a = load32 s a"
  "fcoh (call_into target link s) a = fcoh s a"
  by (simp_all add: call_into_def)

lemma store32_frame [simp]:
  "xreg (store32 a w s) = xreg s" "sp (store32 a w s) = sp s" "pc (store32 a w s) = pc s"
  "issued (store32 a w s) = issued s" "trace (store32 a w s) = trace s"
  by (simp_all add: store32_def store8_def)

lemma getret_result:
  assumes "alloc_ok getret_asm ra"
  shows "\<exists>s'. getret g ra base sch (3 + k) s = Some (load32 s (base + 12), s')
           \<and> xreg s' = (xreg s)(ra ''x1'' := base + 12,
                                ra ''x2'' := ucast (load32 s (base + 12)))
           \<and> pc s' = base + 16
           \<and> trace s' = trace s @ [base, base + 4, base + 8]
           \<and> issued s' = issued s
           \<and> sp s' = sp s
           \<and> (\<forall>a. dview s' a = dview s a)"
proof -
  from assms(1) have r: "ra ''x1'' \<noteq> 31" "ra ''x2'' \<noteq> 31"
    by (simp_all add: alloc_ok_getret)
  show ?thesis
    unfolding getret_run Let_def
    by (simp add: getret_steps [OF r] load32_def ucast_ucast_32_64)
qed

lemma loaded0_text: "getret_loaded encode ra0 0x1000 loaded0"
  by (simp add: getret_loaded_iff loaded0_def ra0_def load32_def store32_def dview_store8
      encode_def le32_def)

lemma alloc0: "alloc_ok selfbar_asm ra0" "alloc_ok getret_asm ra0"
  by (simp_all add: alloc_ok_selfbar alloc_ok_getret ra0_def)

text \<open>
  The caches of the model are not transparent: when the instruction cache holds the
  line and a new word is stored, a load reads the new word and the fetch unit the old
  one, until the barrier is called.
\<close>

lemma stale_fetch_without_barrier:
  "load32 (store32 0x3000 0xD65F03C0 (envs g0 [IFill 0x3000] boot)) 0x3000 = 0xD65F03C0
   \<and> fetch32 (store32 0x3000 0xD65F03C0 (envs g0 [IFill 0x3000] boot)) 0x3000 = 0"
  by (simp add: load32_store32)
     (simp add: fetch32_def fview_def iview_def store32_def store8_def envs_def boot_def
        iline_def g0_def le32_def)

text \<open>
  The order matters in the model: without the first data synchronization barrier the
  invalidate may complete before the clean, the instruction cache refills from memory
  that is still old, and after the remaining instructions the fetch unit reads the
  old word.
\<close>

lemma stale_fetch_without_first_dsb:
  "fetch32
     (straight g0 [DC_CVAU 0, IC_IVAU 0, DSB_SY, ISB]
        [[], [], [Complete 1, IFill 0x3000], []]
        ((store32 0x3000 0xD65F03C0 boot)\<lparr>xreg := (xreg boot)(0 := 0x3000)\<rparr>))
     0x3000 = 0"
  by (simp add: straight.simps exec.simps envs_def next_env_def retire_def read_x_def
      fetch32_def fview_def iview_def dview_def store32_def store8_def boot_def
      iline_def dline_def g0_def le32_def)

section \<open>The claims\<close>

subsection \<open>The coherence barrier\<close>

text \<open>
  C1. For every address \<open>p\<close>, the statement of \<open>selfbar\<close> assembles to the five
  instructions \<open>dc cvau\<close>, \<open>dsb sy\<close>, \<open>ic ivau\<close>, \<open>dsb sy\<close>, \<open>isb\<close> on the
  register that holds \<open>p\<close>, and a call executes exactly these five, in this order,
  nothing between them but the steps of the memory system: the state the call returns
  is the state after the clean at \<open>p\<close>, the barrier, the invalidate at \<open>p\<close>, the
  barrier and the instruction synchronization barrier, applied one after the other
  to the entry state. The register still holds \<open>p\<close> when the clean and when the
  invalidate execute, control leaves the block at its end, the primitives issued and
  the addresses executed are the five of the block, and the statement is volatile, so
  the compiler keeps it.
\<close>

theorem selfbar_issues_five_primitives:
  assumes "alloc_ok selfbar_asm ra" and "5 \<le> fuel"
  shows "asm_volatile selfbar_asm
         \<and> compile_asm selfbar_asm ra =
               Some [DC_CVAU (ra ''p''), DSB_SY, IC_IVAU (ra ''p''), DSB_SY, ISB]
         \<and> (\<exists>s0 s1 s2 s3 s4 s5.
               s0 = s\<lparr>xreg := (xreg s)(ra ''p'' := p), pc := base\<rparr>
               \<and> s1 = exec g (DC_CVAU (ra ''p'')) (envs g (next_env sch) s0)
               \<and> s2 = exec g DSB_SY (envs g (next_env (tl sch)) s1)
               \<and> s3 = exec g (IC_IVAU (ra ''p'')) (envs g (next_env (tl (tl sch))) s2)
               \<and> s4 = exec g DSB_SY (envs g (next_env (tl (tl (tl sch)))) s3)
               \<and> s5 = exec g ISB (envs g (next_env (tl (tl (tl (tl sch))))) s4)
               \<and> selfbar g ra base sch fuel p s = Some s5
               \<and> read_x (envs g (next_env sch) s0) (ra ''p'') = p
               \<and> read_x (envs g (next_env (tl (tl sch))) s2) (ra ''p'') = p
               \<and> pending s1 = pending (envs g (next_env sch) s0) @ [Clean (dline g p)]
               \<and> pending s2 = []
               \<and> pending s3 =
                     pending (envs g (next_env (tl (tl sch))) s2) @ [Inval (iline g p)]
               \<and> pending s4 = []
               \<and> pipe s5 = (\<lambda>b. None)
               \<and> pc s5 = base + 20
               \<and> issued s5 = issued s @ [CleanDCacheVAU p, DataSyncBarrier, InvalICacheVAU p,
                                          DataSyncBarrier, InstrSyncBarrier]
               \<and> trace s5 = trace s @ [base, base + 4, base + 8, base + 12, base + 16])"
proof -
  from assms(2) obtain k where k: "fuel = 5 + k" using fuel5 by blast
  from assms(1) have r: "ra ''p'' \<noteq> 31" by (simp add: alloc_ok_selfbar)
  have v: "asm_volatile selfbar_asm" by (simp add: selfbar_asm_def)
  define s0 where "s0 = s\<lparr>xreg := (xreg s)(ra ''p'' := p), pc := base\<rparr>"
  define s1 where "s1 = exec g (DC_CVAU (ra ''p'')) (envs g (next_env sch) s0)"
  define s2 where "s2 = exec g DSB_SY (envs g (next_env (tl sch)) s1)"
  define s3 where "s3 = exec g (IC_IVAU (ra ''p'')) (envs g (next_env (tl (tl sch))) s2)"
  define s4 where "s4 = exec g DSB_SY (envs g (next_env (tl (tl (tl sch)))) s3)"
  define s5 where "s5 = exec g ISB (envs g (next_env (tl (tl (tl (tl sch))))) s4)"
  have run: "selfbar g ra base sch fuel p s = Some s5"
    unfolding k selfbar_run
    by (simp add: straight.simps s5_def s4_def s3_def s2_def s1_def s0_def)
  have p0: "read_x (envs g (next_env sch) s0) (ra ''p'') = p"
    using r by (simp add: s0_def read_x_def)
  have p2: "read_x (envs g (next_env (tl (tl sch))) s2) (ra ''p'') = p"
    using r by (simp add: s2_def s1_def s0_def read_x_def)
  have q1: "pending s1 = pending (envs g (next_env sch) s0) @ [Clean (dline g p)]"
    unfolding s1_def using p0 by (simp add: exec.simps retire_def)
  have q2: "pending s2 = []"
    unfolding s2_def by (simp add: exec.simps retire_def)
  have q3: "pending s3 = pending (envs g (next_env (tl (tl sch))) s2) @ [Inval (iline g p)]"
    unfolding s3_def using p2 by (simp add: exec.simps retire_def)
  have q4: "pending s4 = []"
    unfolding s4_def by (simp add: exec.simps retire_def)
  have q5: "pipe s5 = (\<lambda>b. None)"
    unfolding s5_def by (simp add: exec.simps retire_def)
  have pc5: "pc s5 = base + 20"
    by (simp add: s5_def s4_def s3_def s2_def s1_def s0_def)
  have is5: "issued s5 = issued s @ [CleanDCacheVAU p, DataSyncBarrier, InvalICacheVAU p,
                                      DataSyncBarrier, InstrSyncBarrier]"
    using r by (simp add: s5_def s4_def s3_def s2_def s1_def s0_def read_x_def)
  have tr5: "trace s5 = trace s @ [base, base + 4, base + 8, base + 12, base + 16]"
    by (simp add: s5_def s4_def s3_def s2_def s1_def s0_def)
  from v compile_selfbar [of ra] s0_def s1_def s2_def s3_def s4_def s5_def
    run p0 p2 q1 q2 q3 q4 q5 pc5 is5 tr5
  show ?thesis by blast
qed

theorem selfbar_issues_five_primitives_witness:
  "asm_volatile selfbar_asm
   \<and> compile_asm selfbar_asm ra0 =
         Some [DC_CVAU (ra0 ''p''), DSB_SY, IC_IVAU (ra0 ''p''), DSB_SY, ISB]
   \<and> (\<exists>s0 s1 s2 s3 s4 s5.
         s0 = boot\<lparr>xreg := (xreg boot)(ra0 ''p'' := 0x3000), pc := 0x2000\<rparr>
         \<and> s1 = exec g0 (DC_CVAU (ra0 ''p'')) (envs g0 (next_env sched0) s0)
         \<and> s2 = exec g0 DSB_SY (envs g0 (next_env (tl sched0)) s1)
         \<and> s3 = exec g0 (IC_IVAU (ra0 ''p'')) (envs g0 (next_env (tl (tl sched0))) s2)
         \<and> s4 = exec g0 DSB_SY (envs g0 (next_env (tl (tl (tl sched0)))) s3)
         \<and> s5 = exec g0 ISB (envs g0 (next_env (tl (tl (tl (tl sched0))))) s4)
         \<and> selfbar g0 ra0 0x2000 sched0 5 0x3000 boot = Some s5
         \<and> read_x (envs g0 (next_env sched0) s0) (ra0 ''p'') = 0x3000
         \<and> read_x (envs g0 (next_env (tl (tl sched0))) s2) (ra0 ''p'') = 0x3000
         \<and> pending s1 = pending (envs g0 (next_env sched0) s0) @ [Clean (dline g0 0x3000)]
         \<and> pending s2 = []
         \<and> pending s3 =
               pending (envs g0 (next_env (tl (tl sched0))) s2) @ [Inval (iline g0 0x3000)]
         \<and> pending s4 = []
         \<and> pipe s5 = (\<lambda>b. None)
         \<and> pc s5 = 0x2000 + 20
         \<and> issued s5 = issued boot @ [CleanDCacheVAU 0x3000, DataSyncBarrier,
                                       InvalICacheVAU 0x3000, DataSyncBarrier,
                                       InstrSyncBarrier]
         \<and> trace s5 = trace boot @ [0x2000, 0x2000 + 4, 0x2000 + 8, 0x2000 + 12,
                                     0x2000 + 16])"
proof -
  have f: "(5::nat) \<le> 5" by simp
  show ?thesis
    by (rule selfbar_issues_five_primitives [OF alloc0(1) f])
qed

text \<open>
  C2. For every instruction address \<open>p\<close> (instructions are 4-byte aligned), every
  state \<open>s\<close> of memory, caches and pipeline, and every word \<open>w\<close> written to \<open>p\<close>:
  after \<open>selfbar p\<close> has returned, an instruction fetch from \<open>p\<close> reads \<open>w\<close>,
  whatever the memory system does in between (evictions, fills, prefetches).
\<close>

theorem selfbar_makes_new_bytes_fetchable:
  assumes "alloc_ok selfbar_asm ra" and "5 \<le> fuel" and "p AND 3 = 0"
  shows "\<exists>s'. selfbar g ra base sch fuel p (store32 p w s) = Some s'
           \<and> (\<forall>es. fetch32 (envs g es s') p = w)"
proof -
  from assms(2) obtain k where k: "fuel = 5 + k" using fuel5 by blast
  from assms(1) have r: "ra ''p'' \<noteq> 31" by (simp add: alloc_ok_selfbar)
  let ?z = "(store32 p w s)\<lparr>xreg := (xreg (store32 p w s))(ra ''p'' := p), pc := base\<rparr>"
  have "fetch32 (envs g es (straight g [DC_CVAU (ra ''p''), DSB_SY, IC_IVAU (ra ''p''), DSB_SY, ISB]
                               sch ?z)) p = load32 ?z p" for es
    using r assms(3) by (intro selfbar_line_fetch) simp_all
  moreover have "load32 ?z p = w"
    by (simp add: load32_store32)
  ultimately show ?thesis
    unfolding k selfbar_run by simp
qed

theorem selfbar_makes_new_bytes_fetchable_witness:
  "\<exists>s'. selfbar g0 ra0 0x2000 sched0 5 0x3000 (store32 0x3000 0xD65F03C0 boot) = Some s'
     \<and> (\<forall>es. fetch32 (envs g0 es s') 0x3000 = 0xD65F03C0)"
  using selfbar_makes_new_bytes_fetchable
          [where ra = ra0 and fuel = 5 and g = g0 and base = "0x2000" and sch = sched0
             and p = "0x3000" and s = boot and w = "0xD65F03C0"]
  by (simp add: alloc0)

text \<open>
  C7. For every address \<open>p\<close>, \<open>selfbar p\<close> leaves every value a load can read
  unchanged, bytes and words alike, and leaves the registers and the stack pointer
  as they were (the register of operand \<open>p\<close> holds \<open>p\<close>); what it changes is the
  state of memory behind the caches, of the instruction cache and of the pipeline.
\<close>

theorem selfbar_frame:
  assumes "alloc_ok selfbar_asm ra" and "5 \<le> fuel"
  shows "\<exists>s'. selfbar g ra base sch fuel p s = Some s'
           \<and> (\<forall>a. dview s' a = dview s a) \<and> (\<forall>a. load32 s' a = load32 s a)
           \<and> xreg s' = (xreg s)(ra ''p'' := p) \<and> sp s' = sp s"
proof -
  from assms(2) obtain k where k: "fuel = 5 + k" using fuel5 by blast
  show ?thesis
    unfolding k selfbar_run
    by (simp add: selfbar_steps_frame load32_def)
qed

theorem selfbar_frame_witness:
  "\<exists>s'. selfbar g0 ra0 0x2000 sched0 5 0x3000 (store32 0x3000 0xD65F03C0 boot) = Some s'
     \<and> (\<forall>a. dview s' a = dview (store32 0x3000 0xD65F03C0 boot) a)
     \<and> (\<forall>a. load32 s' a = load32 (store32 0x3000 0xD65F03C0 boot) a)
     \<and> xreg s' = (xreg boot)(0 := 0x3000) \<and> sp s' = 0"
  using selfbar_frame
          [where ra = ra0 and fuel = 5 and g = g0 and base = "0x2000" and sch = sched0
             and p = "0x3000" and s = "store32 0x3000 0xD65F03C0 boot"]
  by (simp add: alloc0 ra0_def boot_def)

text \<open>
  C10. The maintenance operations act on whole lines: for every address \<open>p\<close> and
  every instruction address \<open>q\<close> in the data cache line and the instruction cache
  line that contain \<open>p\<close>, after \<open>selfbar p\<close> has returned an instruction fetch
  from \<open>q\<close> reads what a load from \<open>q\<close> read before the call.
\<close>

theorem selfbar_covers_cache_line:
  assumes "alloc_ok selfbar_asm ra" and "5 \<le> fuel" and "q AND 3 = 0"
    and "dline g q = dline g p" and "iline g q = iline g p"
  shows "\<exists>s'. selfbar g ra base sch fuel p s = Some s'
           \<and> (\<forall>es. fetch32 (envs g es s') q = load32 s q)"
proof -
  from assms(2) obtain k where k: "fuel = 5 + k" using fuel5 by blast
  from assms(1) have r: "ra ''p'' \<noteq> 31" by (simp add: alloc_ok_selfbar)
  let ?z = "s\<lparr>xreg := (xreg s)(ra ''p'' := p), pc := base\<rparr>"
  have "fetch32 (envs g es (straight g [DC_CVAU (ra ''p''), DSB_SY, IC_IVAU (ra ''p''), DSB_SY, ISB]
                               sch ?z)) q = load32 ?z q" for es
    using r assms(3,4,5) by (intro selfbar_line_fetch) simp_all
  then show ?thesis
    unfolding k selfbar_run by simp
qed

theorem selfbar_covers_cache_line_witness:
  "\<exists>s'. selfbar g0 ra0 0x2000 sched0 5 0x3004 (store32 0x303C 0xD65F03C0 boot) = Some s'
     \<and> (\<forall>es. fetch32 (envs g0 es s') 0x303C = 0xD65F03C0)"
proof -
  have l: "dline g0 0x303C = dline g0 0x3004" "iline g0 0x303C = iline g0 0x3004"
    by (simp_all add: dline_def iline_def g0_def)
  have a: "(0x303C :: addr) AND 3 = 0" by simp
  show ?thesis
    using selfbar_covers_cache_line
            [OF alloc0(1) _ a l, where fuel = 5 and base = "0x2000" and sch = sched0
               and s = "store32 0x303C 0xD65F03C0 boot"]
    by (simp add: load32_store32)
qed

subsection \<open>The encoder probe\<close>

text \<open>
  C3. Wherever the compiler places the block and whatever registers it chooses, with
  the text of the block in memory \<open>getret\<close> returns the word the assembler
  produced for \<open>ret\<close> with the default link register X30; under the A64 encoding
  this is the word \<open>0xD65F03C0\<close>.
\<close>

theorem getret_returns_ret_encoding:
  assumes "alloc_ok getret_asm ra" and "getret_loaded enc ra base s" and "3 \<le> fuel"
  shows "(\<exists>s'. getret g ra base sch fuel s = Some (enc (RET 30), s'))
         \<and> encode (RET 30) = 0xD65F03C0"
proof -
  from assms(3) obtain k where k: "fuel = 3 + k" using fuel3 by blast
  from assms(2) have w: "load32 s (base + 12) = enc (RET 30)"
    by (simp add: getret_loaded_iff)
  from getret_result [OF assms(1), of g base sch k s] w show ?thesis
    unfolding k by (auto simp add: encode_ret)
qed

theorem getret_returns_ret_encoding_witness:
  "(\<exists>s'. getret g0 ra0 0x1000 sched0 3 loaded0 = Some (0xD65F03C0, s'))
   \<and> encode (RET 30) = 0xD65F03C0"
  using getret_returns_ret_encoding
          [OF alloc0(2) loaded0_text, where fuel = 3 and g = g0 and sch = sched0]
  by (simp add: encode_ret)

text \<open>
  C4. Two calls of \<open>getret\<close> under one toolchain, in any two states, at any two
  places of the block and under any two register choices and schedules of the memory
  system, return the same word; a call changes nothing a load can read, issues no
  cache maintenance, and leaves the text of the block in place, so a later call finds
  what this one found.
\<close>

theorem getret_deterministic_stateless:
  assumes "alloc_ok getret_asm ra1" and "getret_loaded enc ra1 base1 s1" and "3 \<le> fuel1"
    and "alloc_ok getret_asm ra2" and "getret_loaded enc ra2 base2 s2" and "3 \<le> fuel2"
  shows "\<exists>w s1' s2'.
           getret g1 ra1 base1 sch1 fuel1 s1 = Some (w, s1')
           \<and> getret g2 ra2 base2 sch2 fuel2 s2 = Some (w, s2')
           \<and> (\<forall>a. dview s1' a = dview s1 a) \<and> (\<forall>a. dview s2' a = dview s2 a)
           \<and> issued s1' = issued s1 \<and> issued s2' = issued s2
           \<and> sp s1' = sp s1 \<and> sp s2' = sp s2
           \<and> getret_loaded enc ra1 base1 s1' \<and> getret_loaded enc ra2 base2 s2'"
proof -
  from assms(3) obtain k1 where k1: "fuel1 = 3 + k1" using fuel3 by blast
  from assms(6) obtain k2 where k2: "fuel2 = 3 + k2" using fuel3 by blast
  have w1: "load32 s1 (base1 + 12) = enc (RET 30)"
    using assms(2) by (simp add: getret_loaded_iff)
  have w2: "load32 s2 (base2 + 12) = enc (RET 30)"
    using assms(5) by (simp add: getret_loaded_iff)
  from getret_result [OF assms(1), of g1 base1 sch1 k1 s1] obtain s1'
    where r1: "getret g1 ra1 base1 sch1 fuel1 s1 = Some (enc (RET 30), s1')"
      and d1: "\<forall>a. dview s1' a = dview s1 a"
      and i1: "issued s1' = issued s1" and p1: "sp s1' = sp s1"
    unfolding k1 w1 by blast
  from getret_result [OF assms(4), of g2 base2 sch2 k2 s2] obtain s2'
    where r2: "getret g2 ra2 base2 sch2 fuel2 s2 = Some (enc (RET 30), s2')"
      and d2: "\<forall>a. dview s2' a = dview s2 a"
      and i2: "issued s2' = issued s2" and p2: "sp s2' = sp s2"
    unfolding k2 w2 by blast
  have "getret_loaded enc ra1 base1 s1'"
    using assms(2) d1 by (simp add: getret_loaded_iff load32_def)
  moreover have "getret_loaded enc ra2 base2 s2'"
    using assms(5) d2 by (simp add: getret_loaded_iff load32_def)
  ultimately show ?thesis
    using r1 r2 d1 d2 i1 i2 p1 p2 by blast
qed

theorem getret_deterministic_stateless_witness:
  "\<exists>w s1' s2'.
     getret g0 ra0 0x1000 sched0 3 loaded0 = Some (w, s1')
     \<and> getret g0 ra0 0x1000 [] 7 (store32 0x3000 0xD65F03C0 loaded0) = Some (w, s2')
     \<and> (\<forall>a. dview s1' a = dview loaded0 a)
     \<and> (\<forall>a. dview s2' a = dview (store32 0x3000 0xD65F03C0 loaded0) a)
     \<and> issued s1' = issued loaded0
     \<and> issued s2' = issued (store32 0x3000 0xD65F03C0 loaded0)
     \<and> sp s1' = sp loaded0 \<and> sp s2' = sp (store32 0x3000 0xD65F03C0 loaded0)
     \<and> getret_loaded encode ra0 0x1000 s1' \<and> getret_loaded encode ra0 0x1000 s2'"
proof -
  have l: "getret_loaded encode ra0 0x1000 (store32 0x3000 0xD65F03C0 loaded0)"
    by (simp add: getret_loaded_iff loaded0_def ra0_def load32_def store32_def dview_store8
        encode_def le32_def)
  have f: "(3::nat) \<le> 3" "(3::nat) \<le> 7" by simp_all
  show ?thesis
    by (rule getret_deterministic_stateless [OF alloc0(2) loaded0_text f(1) alloc0(2) l f(2)])
qed

text \<open>
  C5 as the specification states it: the label whose address the probe computes is
  placed immediately after the return instruction, and the word loaded is the one
  located one instruction before the label. The source places the label immediately
  before the return instruction: label \<open>0:\<close> and the \<open>ret\<close> line are at the same
  offset 12, and the load reads at the label. With the block at \<open>0x1000\<close> the word
  one instruction before the label is the branch \<open>b 1f\<close>, not the word returned.
\<close>

theorem getret_label_not_after_ret:
  "\<not> spec_label_after_ret getret_asm
   \<and> label_offset getret_asm 0 = Some 12 \<and> ret_offset getret_asm = Some 12
   \<and> load32 loaded0 (0x1000 + 12 - 4) = encode (B 8)
   \<and> load32 loaded0 (0x1000 + 12) = encode (RET 30)
   \<and> encode (B 8) \<noteq> encode (RET 30)
   \<and> (\<exists>s'. getret g0 ra0 0x1000 sched0 3 loaded0 = Some (encode (RET 30), s'))"
proof -
  have l: "\<not> spec_label_after_ret getret_asm"
    "label_offset getret_asm 0 = Some 12" "ret_offset getret_asm = Some 12"
    by (simp_all add: spec_label_after_ret_def label_offset_def ret_offset_def parse_getret)
  have t: "load32 loaded0 (0x1000 + 8) = encode (B 8)"
    "load32 loaded0 (0x1000 + 12) = encode (RET 30)"
    using loaded0_text by (simp_all add: getret_loaded_iff)
  have n: "encode (B 8) \<noteq> encode (RET 30)"
    by (simp add: encode_def)
  from getret_result [OF alloc0(2), of g0 "0x1000" sched0 0 loaded0] t(2)
  have r: "\<exists>s'. getret g0 ra0 0x1000 sched0 3 loaded0 = Some (encode (RET 30), s')"
    by auto
  from l t n r show ?thesis by simp
qed

text \<open>
  C5, amended. The probe computes the address of a label L placed at the return
  instruction (immediately before it), loads into a register the 32-bit word located
  at L (the return instruction itself), jumps over the return instruction to a second
  label placed immediately after it, and resumes there; the address stays in the
  register of operand \<open>x1\<close>, and the loaded word, in the register of operand
  \<open>x2\<close>, is the value returned.
\<close>

theorem getret_probe_sequence:
  assumes "alloc_ok getret_asm ra" and "getret_loaded enc ra base s" and "3 \<le> fuel"
  shows "label_offset getret_asm 0 = ret_offset getret_asm
         \<and> label_offset getret_asm 0 = Some 12
         \<and> label_offset getret_asm 1 = Some 16
         \<and> (\<exists>w s'. getret g ra base sch fuel s = Some (w, s')
               \<and> xreg s' (ra ''x1'') = base + 12
               \<and> w = load32 s (base + 12)
               \<and> w = enc (RET 30)
               \<and> xreg s' (ra ''x2'') = ucast w
               \<and> trace s' = trace s @ [base, base + 4, base + 8]
               \<and> pc s' = base + 16)"
proof -
  from assms(3) obtain k where k: "fuel = 3 + k" using fuel3 by blast
  from assms(1) have d: "ra ''x1'' \<noteq> ra ''x2''"
    by (simp add: alloc_ok_getret)
  have w: "load32 s (base + 12) = enc (RET 30)"
    using assms(2) by (simp add: getret_loaded_iff)
  have l: "label_offset getret_asm 0 = ret_offset getret_asm"
    "label_offset getret_asm 0 = Some 12" "label_offset getret_asm 1 = Some 16"
    by (simp_all add: label_offset_def ret_offset_def parse_getret)
  from getret_result [OF assms(1), of g base sch k s] obtain s'
    where "getret g ra base sch fuel s = Some (load32 s (base + 12), s')"
      and "xreg s' = (xreg s)(ra ''x1'' := base + 12, ra ''x2'' := ucast (load32 s (base + 12)))"
      and "pc s' = base + 16" and "trace s' = trace s @ [base, base + 4, base + 8]"
    unfolding k by blast
  with d w l show ?thesis by auto
qed

theorem getret_probe_sequence_witness:
  "label_offset getret_asm 0 = ret_offset getret_asm
   \<and> label_offset getret_asm 0 = Some 12
   \<and> label_offset getret_asm 1 = Some 16
   \<and> (\<exists>w s'. getret g0 ra0 0x1000 sched0 3 loaded0 = Some (w, s')
         \<and> xreg s' (ra0 ''x1'') = 0x1000 + 12
         \<and> w = load32 loaded0 (0x1000 + 12)
         \<and> w = encode (RET 30)
         \<and> xreg s' (ra0 ''x2'') = ucast w
         \<and> trace s' = trace loaded0 @ [0x1000, 0x1000 + 4, 0x1000 + 8]
         \<and> pc s' = 0x1000 + 16)"
proof -
  have f: "(3::nat) \<le> 3" by simp
  show ?thesis
    by (rule getret_probe_sequence [OF alloc0(2) loaded0_text f])
qed

text \<open>
  C9. In every call of \<open>getret\<close> exactly the three instructions before the
  embedded \<open>ret\<close> are executed; the address of the \<open>ret\<close> is not among the
  addresses executed; control leaves the block at its end, where the function goes on
  to return the loaded word.
\<close>

theorem getret_never_executes_embedded_ret:
  assumes "alloc_ok getret_asm ra" and "3 \<le> fuel"
  shows "\<exists>prog w s'.
           compile_asm getret_asm ra = Some prog
           \<and> instr_at base prog (base + 12) = Some (RET 30)
           \<and> getret g ra base sch fuel s = Some (w, s')
           \<and> trace s' = trace s @ [base, base + 4, base + 8]
           \<and> base + 12 \<notin> set [base, base + 4, base + 8]
           \<and> pc s' = block_end base prog
           \<and> w = load32 s (base + 12)
           \<and> xreg s' (ra ''x2'') = ucast w"
proof -
  from assms(2) obtain k where k: "fuel = 3 + k" using fuel3 by blast
  from getret_result [OF assms(1), of g base sch k s] obtain s'
    where "getret g ra base sch fuel s = Some (load32 s (base + 12), s')"
      and "xreg s' = (xreg s)(ra ''x1'' := base + 12, ra ''x2'' := ucast (load32 s (base + 12)))"
      and "pc s' = base + 16" and "trace s' = trace s @ [base, base + 4, base + 8]"
    unfolding k by blast
  then show ?thesis
    by (simp add: compile_getret instr_at_4 block_end_def)
qed

theorem getret_never_executes_embedded_ret_witness:
  "\<exists>prog w s'.
     compile_asm getret_asm ra0 = Some prog
     \<and> instr_at 0x1000 prog (0x1000 + 12) = Some (RET 30)
     \<and> getret g0 ra0 0x1000 sched0 3 loaded0 = Some (w, s')
     \<and> trace s' = trace loaded0 @ [0x1000, 0x1000 + 4, 0x1000 + 8]
     \<and> 0x1000 + 12 \<notin> set [0x1000, 0x1000 + 4, 0x1000 + 8 :: addr]
     \<and> pc s' = block_end 0x1000 prog
     \<and> w = load32 loaded0 (0x1000 + 12)
     \<and> xreg s' (ra0 ''x2'') = ucast w"
proof -
  have f: "(3::nat) \<le> 3" by simp
  show ?thesis
    by (rule getret_never_executes_embedded_ret [OF alloc0(2) f])
qed

subsection \<open>Both operations together\<close>

text \<open>
  C8. Both operations are total: with a budget of at least five (three) steps
  \<open>selfbar\<close> (\<open>getret\<close>) returns a state (a word and a state), never the
  failure value, for every argument, state, placement, register choice and schedule of
  the memory system, after exactly five (three) instructions.
\<close>

theorem selfbar_getret_total:
  assumes "5 \<le> fuel1" and "3 \<le> fuel2"
  shows "(\<exists>s'. selfbar g ra1 base1 sch1 fuel1 p s = Some s'
            \<and> length (trace s') = length (trace s) + 5)
         \<and> (\<exists>w t'. getret g ra2 base2 sch2 fuel2 t = Some (w, t')
               \<and> length (trace t') = length (trace t) + 3)"
proof -
  from assms(1) obtain k1 where k1: "fuel1 = 5 + k1" using fuel5 by blast
  from assms(2) obtain k2 where k2: "fuel2 = 3 + k2" using fuel3 by blast
  show ?thesis
    unfolding k1 k2 selfbar_run getret_run Let_def
    by (simp add: selfbar_steps_trace straight.simps)
qed

theorem selfbar_getret_total_witness:
  "(\<exists>s'. selfbar g0 ra0 0x2000 sched0 5 0x3000 boot = Some s'
      \<and> length (trace s') = length (trace boot) + 5)
   \<and> (\<exists>w t'. getret g0 ra0 0x1000 sched0 3 boot = Some (w, t')
         \<and> length (trace t') = length (trace boot) + 3)"
proof -
  have f: "(5::nat) \<le> 5" "(3::nat) \<le> 3" by simp_all
  show ?thesis
    by (rule selfbar_getret_total [OF f])
qed

text \<open>
  C6. Round trip: the word \<open>getret\<close> returns is written to an instruction
  address \<open>buf\<close>, \<open>selfbar buf\<close> is called, and control is transferred to
  \<open>buf\<close> with a branch-and-link whose return address is \<open>link\<close>. Whatever the
  memory system does meanwhile, the instruction fetched at \<open>buf\<close> is executed and
  control is at \<open>link\<close>, the instruction following the call; the link register, all
  other registers, the stack pointer and everything a load can read are unchanged.
\<close>

theorem probe_write_sync_call_returns:
  assumes "alloc_ok getret_asm ra1" and "getret_loaded encode ra1 gbase s" and "3 \<le> fuel1"
    and "alloc_ok selfbar_asm ra2" and "5 \<le> fuel2" and "buf AND 3 = 0"
  shows "\<exists>w s1 s2.
           getret g ra1 gbase sch1 fuel1 s = Some (w, s1)
           \<and> selfbar g ra2 sbase sch2 fuel2 buf (store32 buf w s1) = Some s2
           \<and> (\<forall>es link. \<exists>s3.
                 fetch_step g (envs g es (call_into buf link s2)) = Some s3
                 \<and> pc s3 = link
                 \<and> xreg s3 30 = link
                 \<and> xreg s3 = xreg (call_into buf link s2)
                 \<and> sp s3 = sp s
                 \<and> (\<forall>a. dview s3 a = dview (store32 buf w s1) a))"
proof -
  from assms(3) obtain k1 where k1: "fuel1 = 3 + k1" using fuel3 by blast
  from assms(5) obtain k2 where k2: "fuel2 = 5 + k2" using fuel5 by blast
  from assms(4) have r: "ra2 ''p'' \<noteq> 31" by (simp add: alloc_ok_selfbar)
  have w: "load32 s (gbase + 12) = 0xD65F03C0"
    using assms(2) by (simp add: getret_loaded_iff encode_ret)
  from getret_result [OF assms(1), of g gbase sch1 k1 s] obtain s1
    where g1: "getret g ra1 gbase sch1 fuel1 s = Some (0xD65F03C0, s1)"
      and sp1: "sp s1 = sp s"
    unfolding k1 w by blast
  let ?w = "0xD65F03C0 :: ins_t"
  let ?t = "store32 buf ?w s1"
  let ?u = "?t\<lparr>xreg := (xreg ?t)(ra2 ''p'' := buf), pc := sbase\<rparr>"
  let ?v = "straight g [DC_CVAU (ra2 ''p''), DSB_SY, IC_IVAU (ra2 ''p''), DSB_SY, ISB] sch2 ?u"
  have b: "selfbar g ra2 sbase sch2 fuel2 buf ?t = Some ?v"
    unfolding k2 by (rule selfbar_run)
  have ret: "\<exists>s3. fetch_step g (envs g es (call_into buf link ?v)) = Some s3
               \<and> pc s3 = link \<and> xreg s3 30 = link
               \<and> xreg s3 = xreg (call_into buf link ?v)
               \<and> sp s3 = sp s
               \<and> (\<forall>a. dview s3 a = dview ?t a)" for es link
  proof -
    let ?c = "envs g es (call_into buf link ?v)"
    have "fcoh (call_into buf link ?v) (buf + k)" if "k < 4" for k
      using selfbar_line_fcoh [OF r assms(6) that, of g ?u sch2] by simp
    then have "fcoh ?c (buf + k)" if "k < 4" for k
      using that by (intro fcoh_envs)
    then have "fetch32 ?c buf = load32 ?c buf"
      by (rule fetch32_word_coherent)
    also have "\<dots> = load32 ?t buf"
      by (simp add: load32_def selfbar_steps_frame)
    also have "\<dots> = ?w"
      by (rule load32_store32)
    finally have f: "fetch32 ?c buf = ?w" .
    have "fetch_step g ?c = Some (exec g (RET 30) ?c)"
      using assms(6) f by (simp add: fetch_step_def decode_ret)
    moreover have "pc (exec g (RET 30) ?c) = link"
      by (simp add: read_x_def)
    moreover have "xreg (exec g (RET 30) ?c) = xreg (call_into buf link ?v)"
      by simp
    moreover have "xreg (call_into buf link ?v) 30 = link"
      by simp
    moreover have "sp (exec g (RET 30) ?c) = sp s"
      by (simp add: selfbar_steps_frame sp1)
    moreover have "dview (exec g (RET 30) ?c) a = dview ?t a" for a
      by (simp add: selfbar_steps_frame)
    ultimately show ?thesis by simp
  qed
  from g1 b ret show ?thesis by blast
qed

theorem probe_write_sync_call_returns_witness:
  "\<exists>w s1 s2.
     getret g0 ra0 0x1000 sched0 3 loaded0 = Some (w, s1)
     \<and> selfbar g0 ra0 0x2000 sched0 5 0x3000 (store32 0x3000 w s1) = Some s2
     \<and> (\<forall>es link. \<exists>s3.
           fetch_step g0 (envs g0 es (call_into 0x3000 link s2)) = Some s3
           \<and> pc s3 = link
           \<and> xreg s3 30 = link
           \<and> xreg s3 = xreg (call_into 0x3000 link s2)
           \<and> sp s3 = sp loaded0
           \<and> (\<forall>a. dview s3 a = dview (store32 0x3000 w s1) a))"
proof -
  have f: "(3::nat) \<le> 3" "(5::nat) \<le> 5" by simp_all
  have a: "(0x3000 :: addr) AND 3 = 0" by simp
  show ?thesis
    by (rule probe_write_sync_call_returns [OF alloc0(2) loaded0_text f(1) alloc0(1) f(2) a])
qed

end
